theory Spec2Isabelle
  imports Main "HOL-Library.Word"
begin

unbundle bit_operations_syntax

section \<open>A shallow embedding of the job scheduler\<close>

text \<open>
  The development embeds the sequential semantics of the scheduler's components:
  the work-stealing deque (\<^verbatim>\<open>JobQueue.h\<close>), the chunk and job allocators
  (\<^verbatim>\<open>JobAllocator.h\<close>), the dependency graph (\<^verbatim>\<open>JobGraph.h\<close>,
  \<^verbatim>\<open>JobGraph.cpp\<close>), the spawner (\<^verbatim>\<open>JobSpawner.cpp\<close>) and the
  termination protocol of \<^verbatim>\<open>Scheduler::work_loop\<close> (as a labelled transition system
  over sequentially consistent atomics).

  Conventions.
  \<^item> \<^verbatim>\<open>uint32_t\<close> and \<^verbatim>\<open>int32_t\<close> are \<open>32 word\<close>; the signed type is read through
    \<open>sint\<close>. Arithmetic wraps around, as the atomics and the unsigned type do by
    definition and as two's complement hardware does for the signed one.
  \<^item> A failed \<^verbatim>\<open>assert\<close> and a dereference of a null or dangling pointer end the call:
    every operation that contains one returns \<open>fault + result\<close>.
  \<^item> Pointers to graph nodes are indices into the graph's node arena (the vector of
    \<^verbatim>\<open>unique_ptr\<close>s, which never moves or frees a node); \<open>None\<close> is the null pointer.
  \<^item> A recursion that the source does not bound (\<^verbatim>\<open>is_ancestor_of\<close>) takes fuel and
    returns \<open>None\<close> when the fuel runs out.
\<close>

subsection \<open>Faults and pointers\<close>

datatype fault = AssertionFailed | NullDereference | InvalidPointer

text \<open>
  A \<^verbatim>\<open>Job*\<close> points either to the root job stored inside a graph node or to a slot of
  a chunk of the chunk allocator.
\<close>

datatype job_ref = RootJob nat | ChunkJob nat nat

type_synonym job_ptr = "job_ref option"

subsection \<open>Config.h\<close>

text \<open>\<^verbatim>\<open>queue_capacity\<close> and \<^verbatim>\<open>allocation_chunk_size\<close> are \<^verbatim>\<open>size_t\<close> constants.\<close>

definition queue_capacity :: "64 word" where
  "queue_capacity = 4096"

definition allocation_chunk_size :: "64 word" where
  "allocation_chunk_size = 2048"

subsection \<open>JobQueue.h: the work-stealing deque\<close>

text \<open>
  \<^verbatim>\<open>Size\<close> is \<^verbatim>\<open>int32_t\<close>. The field \<^verbatim>\<open>top\<close> is written \<open>top'\<close>, since \<open>top\<close> is
  the greatest element of a lattice in HOL.
\<close>

record JobQueue =
  ring_buffer :: "nat \<Rightarrow> job_ptr"
  top' :: "32 word"
  bottom :: "32 word"

definition JobQueue_size_max :: "32 word" where
  "JobQueue_size_max = 2147483647"

text \<open>
  \<^verbatim>\<open>ring_buffer[i % queue_capacity]\<close>: the \<^verbatim>\<open>int32_t\<close> index is converted to
  \<^verbatim>\<open>size_t\<close> (sign extension) before the unsigned remainder is taken.
\<close>

definition ring_index :: "32 word \<Rightarrow> nat" where
  "ring_index i = unat ((scast i :: 64 word) mod queue_capacity)"

definition JobQueue_reset :: "JobQueue \<Rightarrow> JobQueue" where
  "JobQueue_reset q = q\<lparr>bottom := 0, top' := 0\<rparr>"

definition JobQueue_push :: "JobQueue \<Rightarrow> job_ptr \<Rightarrow> fault + (bool \<times> JobQueue)" where
  "JobQueue_push q job =
    (let local_bottom = bottom q in
     if \<not> sint local_bottom < sint JobQueue_size_max then Inl AssertionFailed
     else
       let local_top = top' q in
       if (scast (local_bottom - local_top) :: 64 word) = queue_capacity then Inr (False, q)
       else Inr (True, q\<lparr>ring_buffer := (ring_buffer q)(ring_index local_bottom := job),
                            bottom := local_bottom + 1\<rparr>))"

text \<open>
  \<^verbatim>\<open>compare_exchange_strong\<close> on a memory cell holding \<open>current\<close>: success and the new
  content of the cell.
\<close>

definition compare_exchange_strong :: "32 word \<Rightarrow> 32 word \<Rightarrow> 32 word \<Rightarrow> bool \<times> 32 word" where
  "compare_exchange_strong current expected desired =
    (if current = expected then (True, desired) else (False, current))"

text \<open>
  \<^verbatim>\<open>pop\<close> is run by the owner. Between its load of \<^verbatim>\<open>top\<close> and its compare-exchange a
  thief may have advanced \<^verbatim>\<open>top\<close>; \<open>top_at_cas\<close> is the content of \<^verbatim>\<open>top\<close> when the
  compare-exchange executes. In an uncontended execution it is the value that was
  loaded, \<open>top' q\<close>.
\<close>

definition JobQueue_pop :: "JobQueue \<Rightarrow> 32 word \<Rightarrow> job_ptr \<times> JobQueue" where
  "JobQueue_pop q top_at_cas =
    (let local_bottom = bottom q - 1;
         q1 = q\<lparr>bottom := local_bottom\<rparr>;
         local_top = top' q1 in
     if sint local_bottom < sint local_top then (None, q1\<lparr>bottom := local_bottom + 1\<rparr>)
     else
       let job = ring_buffer q1 (ring_index local_bottom) in
       if sint local_bottom > sint local_top then (job, q1)
       else
         (case compare_exchange_strong top_at_cas local_top (local_top + 1) of
            (False, t) \<Rightarrow> (None, q1\<lparr>top' := t, bottom := local_bottom + 1\<rparr>)
          | (True, t) \<Rightarrow> (job, q1\<lparr>top' := t, bottom := local_bottom + 1\<rparr>)))"

definition JobQueue_pop_uncontended :: "JobQueue \<Rightarrow> job_ptr \<times> JobQueue" where
  "JobQueue_pop_uncontended q = JobQueue_pop q (top' q)"

text \<open>
  \<^verbatim>\<open>steal\<close> is run by a thief; \<open>top_at_cas\<close> is again the content of \<^verbatim>\<open>top\<close> when the
  compare-exchange executes.
\<close>

definition JobQueue_steal :: "JobQueue \<Rightarrow> 32 word \<Rightarrow> job_ptr \<times> JobQueue" where
  "JobQueue_steal q top_at_cas =
    (let local_top = top' q;
         local_bottom = bottom q in
     if sint local_top \<ge> sint local_bottom then (None, q)
     else
       let job = ring_buffer q (ring_index local_top) in
       (case compare_exchange_strong top_at_cas local_top (local_top + 1) of
          (False, t) \<Rightarrow> (None, q\<lparr>top' := t\<rparr>)
        | (True, t) \<Rightarrow> (job, q\<lparr>top' := t\<rparr>)))"

subsection \<open>JobAllocator.h: the chunk allocator and the job allocator\<close>

text \<open>
  \<^verbatim>\<open>JobChunkAllocator::Size\<close> is \<^verbatim>\<open>uint32_t\<close>. The vector \<^verbatim>\<open>chunks\<close> never changes its
  size, and a \<^verbatim>\<open>JobChunk*\<close> is \<^verbatim>\<open>chunks.data() + index\<close>: the allocator is modelled by the
  size of the vector and the counter, a chunk pointer by the index of the chunk.
\<close>

record JobChunkAllocator =
  chunks_size :: nat
  next_index :: "32 word"

definition JobChunkAllocator_size_max :: "32 word" where
  "JobChunkAllocator_size_max = 4294967295"

definition JobChunkAllocator_new :: "32 word \<Rightarrow> JobChunkAllocator" where
  "JobChunkAllocator_new chunk_amount = \<lparr>chunks_size = unat chunk_amount, next_index = 0\<rparr>"

definition JobChunkAllocator_allocate ::
  "JobChunkAllocator \<Rightarrow> fault + (nat option \<times> JobChunkAllocator)" where
  "JobChunkAllocator_allocate a =
    (let index = next_index a;
         a1 = a\<lparr>next_index := index + 1\<rparr> in
     if \<not> index < JobChunkAllocator_size_max then Inl AssertionFailed
     else if unat index \<ge> chunks_size a1 then Inr (None, a1)
     else Inr (Some (unat index), a1))"

definition JobChunkAllocator_reset :: "JobChunkAllocator \<Rightarrow> JobChunkAllocator" where
  "JobChunkAllocator_reset a = a\<lparr>next_index := 0\<rparr>"

text \<open>
  \<open>allocate_calls n\<close> is \<open>n\<close> calls of \<^verbatim>\<open>allocate\<close> in a row: the pointers they return,
  in order, and the allocator they leave.
\<close>

fun allocate_calls ::
  "nat \<Rightarrow> JobChunkAllocator \<Rightarrow> fault + (nat option list \<times> JobChunkAllocator)" where
  "allocate_calls 0 a = Inr ([], a)"
| "allocate_calls (Suc n) a =
    (case JobChunkAllocator_allocate a of
       Inl f \<Rightarrow> Inl f
     | Inr (r, a1) \<Rightarrow>
         (case allocate_calls n a1 of
            Inl f \<Rightarrow> Inl f
          | Inr (rs, a2) \<Rightarrow> Inr (r # rs, a2)))"

text \<open>
  The thread-local allocator. Its \<^verbatim>\<open>next_index\<close> is written \<open>next_index'\<close>; the chunk
  allocator it refers to is passed in and returned.
\<close>

record JobAllocator =
  chunk :: "nat option"
  next_index' :: "32 word"

definition take_slot :: "JobAllocator \<Rightarrow> nat \<Rightarrow> job_ptr \<times> JobAllocator" where
  "take_slot a c =
    (let job = ChunkJob c (unat (next_index' a));
         n = next_index' a + 1 in
     (Some job,
      a\<lparr>next_index' := n,
        chunk := (if (ucast n :: 64 word) = allocation_chunk_size then None else Some c)\<rparr>))"

definition JobAllocator_allocate ::
  "JobAllocator \<Rightarrow> JobChunkAllocator \<Rightarrow> fault + (job_ptr \<times> JobAllocator \<times> JobChunkAllocator)" where
  "JobAllocator_allocate a ca =
    (case chunk a of
       Some c \<Rightarrow> (case take_slot a c of (job, a1) \<Rightarrow> Inr (job, a1, ca))
     | None \<Rightarrow>
         (case JobChunkAllocator_allocate ca of
            Inl f \<Rightarrow> Inl f
          | Inr (None, ca1) \<Rightarrow> Inr (None, a, ca1)
          | Inr (Some c, ca1) \<Rightarrow>
              (case take_slot (a\<lparr>chunk := Some c, next_index' := 0\<rparr>) c of
                 (job, a1) \<Rightarrow> Inr (job, a1, ca1))))"

definition JobAllocator_reset :: "JobAllocator \<Rightarrow> JobAllocator" where
  "JobAllocator_reset a = a\<lparr>chunk := None\<rparr>"

text \<open>
  The pointer the specification promises for the \<open>n\<close>-th call (counted from one) on an
  allocator of \<open>C\<close> chunks: the \<open>n\<close>-th chunk, \<^verbatim>\<open>chunks.data() + (n - 1)\<close>, while
  \<open>n \<le> C\<close>, and null afterwards.
\<close>

definition chunk_of_call :: "nat \<Rightarrow> nat \<Rightarrow> nat option" where
  "chunk_of_call C n = (if n \<le> C then Some (n - 1) else None)"

subsection \<open>Job.h and JobGraph.h: jobs, graph nodes and the graph\<close>

text \<open>
  A job holds its parameter bytes, its function pointer and the back-pointer to its
  node. The field \<^verbatim>\<open>function\<close> is written \<open>function'\<close>. Only the bytes that \<^verbatim>\<open>memcpy\<close> wrote
  are kept of a parameter buffer.
\<close>

record Job =
  param_buffer :: "8 word list"
  function' :: nat
  node :: "nat option"

definition memcpy :: "8 word list \<Rightarrow> 8 word list \<Rightarrow> 8 word list" where
  "memcpy dst src = src @ drop (length src) dst"

text \<open>
  \<^verbatim>\<open>JobGraphNode::Size\<close> is \<^verbatim>\<open>uint32_t\<close>. A \<^verbatim>\<open>JobGraphNode*\<close> is the index of the node in
  the vector \<^verbatim>\<open>nodes\<close> of its graph, in which every node stays where it was created. The
  field \<^verbatim>\<open>owner\<close> is not stored: the nodes whose owner is a graph are the nodes of its
  vector.
\<close>

record JobGraphNode =
  root_job :: Job
  initial_predecessor_amount :: "32 word"
  predecessor_amount :: "32 word"
  unfinished_amount :: "32 word"
  successors :: "nat list"

record JobGraph =
  nodes :: "JobGraphNode list"
  root_nodes :: "nat list"

definition JobGraph_empty :: JobGraph where
  "JobGraph_empty = \<lparr>nodes = [], root_nodes = []\<rparr>"

text \<open>Dereferencing a node pointer: \<open>None\<close> when it does not point into the vector.\<close>

definition node_at :: "JobGraphNode list \<Rightarrow> nat \<Rightarrow> JobGraphNode option" where
  "node_at ns p = (if p < length ns then Some (ns ! p) else None)"

text \<open>The constructor of \<^verbatim>\<open>JobGraphNode\<close>; \<open>this\<close> is the address of the new node.\<close>

definition JobGraphNode_new :: "nat \<Rightarrow> 8 word list \<Rightarrow> nat \<Rightarrow> JobGraphNode" where
  "JobGraphNode_new root_job_function params this =
    \<lparr>root_job = \<lparr>param_buffer = memcpy [] params, function' = root_job_function, node = Some this\<rparr>,
     initial_predecessor_amount = 0,
     predecessor_amount = 0,
     unfinished_amount = 1,
     successors = []\<rparr>"

definition job_added :: "JobGraphNode \<Rightarrow> JobGraphNode" where
  "job_added n = n\<lparr>unfinished_amount := unfinished_amount n + 1\<rparr>"

text \<open>\<^verbatim>\<open>JobGraphNode::get_root_job\<close> returns the address of the member \<^verbatim>\<open>root_job\<close>.\<close>

definition JobGraphNode_get_root_job :: "nat \<Rightarrow> job_ptr" where
  "JobGraphNode_get_root_job this = Some (RootJob this)"

subsection \<open>JobGraph.cpp: successors and ancestors\<close>

definition add_successor :: "nat \<Rightarrow> nat \<Rightarrow> JobGraphNode list \<Rightarrow> fault + JobGraphNode list" where
  "add_successor this successor ns =
    (case node_at ns this of
       None \<Rightarrow> Inl InvalidPointer
     | Some n \<Rightarrow>
         let ns1 = ns[this := n\<lparr>successors := successors n @ [successor]\<rparr>] in
         (case node_at ns1 successor of
            None \<Rightarrow> Inl InvalidPointer
          | Some s \<Rightarrow>
              let a = initial_predecessor_amount s + 1 in
              Inr (ns1[successor := s\<lparr>initial_predecessor_amount := a, predecessor_amount := a\<rparr>])))"

text \<open>
  \<^verbatim>\<open>is_ancestor_of\<close> recurses through the successors without a bound of its own; the
  fuel bounds the depth of the recursion. \<open>any_is_ancestor_of\<close> is its second loop.
\<close>

fun is_ancestor_of :: "nat \<Rightarrow> JobGraphNode list \<Rightarrow> nat \<Rightarrow> nat \<Rightarrow> (fault + bool) option"
  and any_is_ancestor_of :: "nat \<Rightarrow> JobGraphNode list \<Rightarrow> nat list \<Rightarrow> nat \<Rightarrow> (fault + bool) option"
  where
  "is_ancestor_of 0 ns this descendant = None"
| "is_ancestor_of (Suc fuel) ns this descendant =
    (case node_at ns this of
       None \<Rightarrow> Some (Inl InvalidPointer)
     | Some n \<Rightarrow>
         if descendant \<in> set (successors n) then Some (Inr True)
         else any_is_ancestor_of fuel ns (successors n) descendant)"
| "any_is_ancestor_of fuel ns [] descendant = Some (Inr False)"
| "any_is_ancestor_of fuel ns (successor # rest) descendant =
    (case is_ancestor_of fuel ns successor descendant of
       None \<Rightarrow> None
     | Some (Inl f) \<Rightarrow> Some (Inl f)
     | Some (Inr True) \<Rightarrow> Some (Inr True)
     | Some (Inr False) \<Rightarrow> any_is_ancestor_of fuel ns rest descendant)"

subsection \<open>JobGraph.h: creating nodes\<close>

text \<open>The form without predecessors.\<close>

definition new_node :: "JobGraph \<Rightarrow> nat \<Rightarrow> 8 word list \<Rightarrow> JobGraph \<times> nat" where
  "new_node g root_job_function params =
    (let created = length (nodes g) in
     (g\<lparr>nodes := nodes g @ [JobGraphNode_new root_job_function params created],
        root_nodes := root_nodes g @ [created]\<rparr>, created))"

text \<open>
  The forms with an array of predecessors. \<open>is_redundant\<close> is the inner loop over the
  candidates, \<open>link_predecessors\<close> the outer loop, and \<open>created\<close> the new node. The node
  pointers that a caller can hold are those that earlier calls on this graph returned,
  the nodes \<open>p < created\<close>; on any other pointer the assertion
  \<^verbatim>\<open>predecessor->owner == this\<close> fails.
\<close>

fun is_redundant :: "nat \<Rightarrow> JobGraphNode list \<Rightarrow> nat \<Rightarrow> nat list \<Rightarrow> (fault + bool) option" where
  "is_redundant fuel ns predecessor [] = Some (Inr False)"
| "is_redundant fuel ns predecessor (descendant_candidate # rest) =
    (if descendant_candidate \<noteq> predecessor then
       (case is_ancestor_of fuel ns predecessor descendant_candidate of
          None \<Rightarrow> None
        | Some (Inl f) \<Rightarrow> Some (Inl f)
        | Some (Inr True) \<Rightarrow> Some (Inr True)
        | Some (Inr False) \<Rightarrow> is_redundant fuel ns predecessor rest)
     else is_redundant fuel ns predecessor rest)"

fun link_predecessors ::
  "nat \<Rightarrow> nat list \<Rightarrow> nat \<Rightarrow> nat list \<Rightarrow> JobGraphNode list \<Rightarrow> (fault + JobGraphNode list) option" where
  "link_predecessors fuel predecessors created [] ns = Some (Inr ns)"
| "link_predecessors fuel predecessors created (predecessor # rest) ns =
    (if \<not> predecessor < created then Some (Inl AssertionFailed)
     else
       (case is_redundant fuel ns predecessor predecessors of
          None \<Rightarrow> None
        | Some (Inl f) \<Rightarrow> Some (Inl f)
        | Some (Inr True) \<Rightarrow> link_predecessors fuel predecessors created rest ns
        | Some (Inr False) \<Rightarrow>
            (case add_successor predecessor created ns of
               Inl f \<Rightarrow> Some (Inl f)
             | Inr ns1 \<Rightarrow> link_predecessors fuel predecessors created rest ns1)))"

definition new_node_preds ::
  "nat \<Rightarrow> JobGraph \<Rightarrow> nat \<Rightarrow> 8 word list \<Rightarrow> nat list \<Rightarrow> (fault + JobGraph \<times> nat) option" where
  "new_node_preds fuel g root_job_function params predecessors =
    (let created = length (nodes g);
         ns = nodes g @ [JobGraphNode_new root_job_function params created] in
     (case link_predecessors fuel predecessors created predecessors ns of
        None \<Rightarrow> None
      | Some (Inl f) \<Rightarrow> Some (Inl f)
      | Some (Inr ns1) \<Rightarrow> Some (Inr (g\<lparr>nodes := ns1\<rparr>, created))))"

definition JobGraph_get_root_job :: "JobGraph \<Rightarrow> 32 word \<Rightarrow> job_ptr" where
  "JobGraph_get_root_job g index =
    (if unat index \<ge> length (root_nodes g) then None
     else JobGraphNode_get_root_job (root_nodes g ! unat index))"

text \<open>
  A graph is built by a sequence of calls of \<^verbatim>\<open>new_node\<close>. The \<open>k\<close>-th call creates the
  node \<open>k\<close>, so the nodes created without predecessors are the positions of \<open>NewNode\<close> in
  the sequence.
\<close>

datatype construction = NewNode nat "8 word list" | NewNodePreds nat "8 word list" "nat list"

fun construct ::
  "nat \<Rightarrow> construction list \<Rightarrow> JobGraph \<Rightarrow> (fault + JobGraph) option" where
  "construct fuel [] g = Some (Inr g)"
| "construct fuel (NewNode f ps # cs) g = construct fuel cs (fst (new_node g f ps))"
| "construct fuel (NewNodePreds f ps preds # cs) g =
    (case new_node_preds fuel g f ps preds of
       None \<Rightarrow> None
     | Some (Inl e) \<Rightarrow> Some (Inl e)
     | Some (Inr (g1, created)) \<Rightarrow> construct fuel cs g1)"

fun is_NewNode :: "construction \<Rightarrow> bool" where
  "is_NewNode (NewNode f ps) = True"
| "is_NewNode (NewNodePreds f ps preds) = False"

definition root_creations :: "construction list \<Rightarrow> nat list" where
  "root_creations cs = filter (\<lambda>k. is_NewNode (cs ! k)) [0 ..< length cs]"

text \<open>The successor edges of a graph, and the graphs all of whose edges point forward.\<close>

definition edges :: "JobGraphNode list \<Rightarrow> (nat \<times> nat) set" where
  "edges ns = {(p, s). p < length ns \<and> s \<in> set (successors (ns ! p))}"

definition forward :: "JobGraphNode list \<Rightarrow> bool" where
  "forward ns = (\<forall>p < length ns. \<forall>s \<in> set (successors (ns ! p)). p < s \<and> s < length ns)"

fun creation_function :: "construction \<Rightarrow> nat" where
  "creation_function (NewNode f ps) = f"
| "creation_function (NewNodePreds f ps preds) = f"

fun creation_params :: "construction \<Rightarrow> 8 word list" where
  "creation_params (NewNode f ps) = ps"
| "creation_params (NewNodePreds f ps preds) = ps"

subsection \<open>JobGraph.cpp: the completion protocol\<close>

text \<open>
  \<open>fire_successors\<close> is the loop of \<^verbatim>\<open>job_completed\<close> over the successors; the pointer
  \<^verbatim>\<open>&successor->root_job\<close> is \<open>RootJob successor\<close>.
\<close>

fun fire_successors ::
  "nat list \<Rightarrow> JobGraphNode list \<Rightarrow> JobQueue \<Rightarrow> fault + (JobGraphNode list \<times> JobQueue)" where
  "fire_successors [] ns queue = Inr (ns, queue)"
| "fire_successors (successor # rest) ns queue =
    (case node_at ns successor of
       None \<Rightarrow> Inl InvalidPointer
     | Some s \<Rightarrow>
         let old_predecessor_amount = predecessor_amount s;
             ns1 = ns[successor := s\<lparr>predecessor_amount := old_predecessor_amount - 1\<rparr>] in
         if \<not> old_predecessor_amount > 0 then Inl AssertionFailed
         else if old_predecessor_amount = 1 then
           (case JobQueue_push queue (Some (RootJob successor)) of
              Inl f \<Rightarrow> Inl f
            | Inr (pushed, queue1) \<Rightarrow>
                if \<not> pushed then Inl AssertionFailed
                else fire_successors rest ns1 queue1)
         else fire_successors rest ns1 queue)"

definition job_completed ::
  "nat \<Rightarrow> JobGraphNode list \<Rightarrow> JobQueue \<Rightarrow> fault + (JobGraphNode list \<times> JobQueue)" where
  "job_completed this ns queue =
    (case node_at ns this of
       None \<Rightarrow> Inl InvalidPointer
     | Some n \<Rightarrow>
         let old_unfinished_amount = unfinished_amount n;
             ns1 = ns[this := n\<lparr>unfinished_amount := old_unfinished_amount - 1\<rparr>] in
         if \<not> old_unfinished_amount > 0 then Inl AssertionFailed
         else if old_unfinished_amount > 1 then Inr (ns1, queue)
         else
           (case fire_successors (successors n) ns1 queue of
              Inl f \<Rightarrow> Inl f
            | Inr (ns2, queue2) \<Rightarrow>
                (case node_at ns2 this of
                   None \<Rightarrow> Inl InvalidPointer
                 | Some n2 \<Rightarrow>
                     Inr (ns2[this := n2\<lparr>unfinished_amount := 1,
                                         predecessor_amount := initial_predecessor_amount n2\<rparr>],
                          queue2))))"

text \<open>
  The specification of the firing, in its own words: going through the successors in
  list order with the counters \<open>c\<close>, every successor has its counter decremented by one,
  and those whose counter was 1 just before are pushed, in that order.
  \<open>push_all\<close> is the deque after a sequence of pushes that all succeed.
\<close>

fun fired_successors :: "(nat \<Rightarrow> 32 word) \<Rightarrow> nat list \<Rightarrow> nat list" where
  "fired_successors c [] = []"
| "fired_successors c (s # ss) =
    (if c s = 1 then [s] else []) @ fired_successors (c(s := c s - 1)) ss"

fun push_all :: "JobQueue \<Rightarrow> job_ptr list \<Rightarrow> JobQueue" where
  "push_all q [] = q"
| "push_all q (job # jobs) =
    push_all (q\<lparr>ring_buffer := (ring_buffer q)(unat (bottom q) mod 4096 := job),
                bottom := bottom q + 1\<rparr>) jobs"

subsection \<open>JobSpawner.cpp and Job.cpp: spawning\<close>

text \<open>
  The spawner refers to the allocator and the deque of the worker and holds the pointer
  to the node of the running job, written \<open>node'\<close>. The memory that a spawn touches beyond
  them is the chunk allocator, the job slots of the chunks and the nodes of the graph.
\<close>

record JobSpawner =
  allocator :: JobAllocator
  queue :: JobQueue
  node' :: "nat option"

record memory =
  chunk_allocator :: JobChunkAllocator
  chunk_jobs :: "nat \<Rightarrow> nat \<Rightarrow> Job"
  graph_nodes :: "JobGraphNode list"

text \<open>
  The branch on \<^verbatim>\<open>is_sub_job\<close>: the back-pointer of the job and the nodes afterwards.
  \<^verbatim>\<open>node->job_added()\<close> dereferences the pointer of the spawner.
\<close>

definition set_job_node ::
  "nat option \<Rightarrow> bool \<Rightarrow> Job \<Rightarrow> JobGraphNode list \<Rightarrow> fault + (Job \<times> JobGraphNode list)" where
  "set_job_node spawner_node is_sub_job job ns =
    (if is_sub_job then
       (case spawner_node of
          None \<Rightarrow> Inl NullDereference
        | Some n \<Rightarrow>
            (case node_at ns n of
               None \<Rightarrow> Inl InvalidPointer
             | Some nd \<Rightarrow> Inr (job\<lparr>node := spawner_node\<rparr>, ns[n := job_added nd])))
     else Inr (job\<lparr>node := None\<rparr>, ns))"

definition spawn_impl ::
  "JobSpawner \<Rightarrow> memory \<Rightarrow> nat \<Rightarrow> 8 word list \<Rightarrow> bool \<Rightarrow> fault + (JobSpawner \<times> memory)" where
  "spawn_impl sp m f params is_sub_job =
    (case JobAllocator_allocate (allocator sp) (chunk_allocator m) of
       Inl e \<Rightarrow> Inl e
     | Inr (None, a, ca) \<Rightarrow> Inl AssertionFailed
     | Inr (Some (RootJob r), a, ca) \<Rightarrow> Inl InvalidPointer
     | Inr (Some (ChunkJob c i), a, ca) \<Rightarrow>
         let job = chunk_jobs m c i;
             job1 = job\<lparr>param_buffer := memcpy (param_buffer job) params, function' := f\<rparr> in
         (case set_job_node (node' sp) is_sub_job job1 (graph_nodes m) of
            Inl e \<Rightarrow> Inl e
          | Inr (job2, ns) \<Rightarrow>
              (case JobQueue_push (queue sp) (Some (ChunkJob c i)) of
                 Inl e \<Rightarrow> Inl e
               | Inr (pushed, q) \<Rightarrow>
                   if \<not> pushed then Inl AssertionFailed
                   else
                     Inr (sp\<lparr>allocator := a, queue := q\<rparr>,
                          m\<lparr>chunk_allocator := ca,
                            chunk_jobs := (chunk_jobs m)(c := (chunk_jobs m c)(i := job2)),
                            graph_nodes := ns\<rparr>))))"

text \<open>
  \<^verbatim>\<open>Job::run\<close>, after the job function has returned: the completion protocol runs only
  for a job with a node.
\<close>

definition run_completion ::
  "Job \<Rightarrow> JobGraphNode list \<Rightarrow> JobQueue \<Rightarrow> fault + (JobGraphNode list \<times> JobQueue)" where
  "run_completion job ns q =
    (case node job of
       None \<Rightarrow> Inr (ns, q)
     | Some n \<Rightarrow> job_completed n ns q)"

subsection \<open>Main.cpp: the benchmark graph\<close>

text \<open>
  \<^verbatim>\<open>main\<close> builds a chain of three nodes: \<^verbatim>\<open>generate_node\<close>, then \<^verbatim>\<open>batch_sum_node\<close>
  with the predecessors \<^verbatim>\<open>{ generate_node }\<close>, then a node with the predecessors
  \<^verbatim>\<open>{ batch_sum_node }\<close>. The two job functions are told apart by their addresses; the
  bytes of the parameter structs are left empty.
\<close>

definition parallel_generate :: nat where
  "parallel_generate = 100"

definition parallel_sum :: nat where
  "parallel_sum = 200"

definition Main_calls :: "construction list" where
  "Main_calls =
    [NewNode parallel_generate [],
     NewNodePreds parallel_sum [] [0],
     NewNodePreds parallel_sum [] [1]]"

text \<open>The graph after the first two calls, and after all three.\<close>

definition Main_graph_two :: JobGraph where
  "Main_graph_two =
    \<lparr>nodes =
      [\<lparr>root_job = \<lparr>param_buffer = [], function' = parallel_generate, node = Some 0\<rparr>,
        initial_predecessor_amount = 0, predecessor_amount = 0, unfinished_amount = 1,
        successors = [1]\<rparr>,
       \<lparr>root_job = \<lparr>param_buffer = [], function' = parallel_sum, node = Some 1\<rparr>,
        initial_predecessor_amount = 1, predecessor_amount = 1, unfinished_amount = 1,
        successors = []\<rparr>],
     root_nodes = [0]\<rparr>"

definition Main_graph :: JobGraph where
  "Main_graph =
    \<lparr>nodes =
      [\<lparr>root_job = \<lparr>param_buffer = [], function' = parallel_generate, node = Some 0\<rparr>,
        initial_predecessor_amount = 0, predecessor_amount = 0, unfinished_amount = 1,
        successors = [1]\<rparr>,
       \<lparr>root_job = \<lparr>param_buffer = [], function' = parallel_sum, node = Some 1\<rparr>,
        initial_predecessor_amount = 1, predecessor_amount = 1, unfinished_amount = 1,
        successors = [2]\<rparr>,
       \<lparr>root_job = \<lparr>param_buffer = [], function' = parallel_sum, node = Some 2\<rparr>,
        initial_predecessor_amount = 1, predecessor_amount = 1, unfinished_amount = 1,
        successors = []\<rparr>],
     root_nodes = [0]\<rparr>"

subsection \<open>Scheduler.cpp: choosing a victim\<close>

text \<open>
  \<^verbatim>\<open>Scheduler::Size\<close> is \<^verbatim>\<open>uint32_t\<close>. The constructor clamps the number of workers to at
  least one. A worker draws from \<^verbatim>\<open>uniform_int_distribution<Size>\<close> with the bounds
  \<^verbatim>\<open>1u + index\<close> and \<^verbatim>\<open>std::max(worker_amount - 1u, 1u) + index\<close>; which value of the range
  the random generator yields is left open, so the draw is any value \<open>d\<close> between the
  bounds.
\<close>

definition Scheduler_worker_amount :: "32 word \<Rightarrow> 32 word" where
  "Scheduler_worker_amount desired_worker_amount = max desired_worker_amount 1"

definition steal_distribution_a :: "32 word \<Rightarrow> 32 word" where
  "steal_distribution_a index = 1 + index"

definition steal_distribution_b :: "32 word \<Rightarrow> 32 word \<Rightarrow> 32 word" where
  "steal_distribution_b index worker_amount = max (worker_amount - 1) 1 + index"

definition steal_distribution :: "32 word \<Rightarrow> 32 word \<Rightarrow> 32 word \<Rightarrow> bool" where
  "steal_distribution index worker_amount d =
    (steal_distribution_a index \<le> d \<and> d \<le> steal_distribution_b index worker_amount)"

definition target_index :: "32 word \<Rightarrow> 32 word \<Rightarrow> 32 word" where
  "target_index d worker_amount = d mod worker_amount"

subsection \<open>Scheduler.cpp: the work loop as a transition system\<close>

text \<open>
  The control points of a worker in \<^verbatim>\<open>work_loop\<close>, named by what the worker does next:
  \<^item> \<open>Own\<close>: pop from its own deque (and run the job);
  \<^item> \<open>Enter\<close>: \<^verbatim>\<open>stealer_amount.fetch_add(1)\<close>;
  \<^item> \<open>Steal\<close>: choose a victim and steal from it;
  \<^item> \<open>Leave\<close>: \<^verbatim>\<open>stealer_amount.fetch_sub(1)\<close>, after a steal that succeeded;
  \<^item> \<open>RunStolen\<close>: run the stolen job;
  \<^item> \<open>Check\<close>: load \<^verbatim>\<open>stealer_amount\<close> (relaxed), after a steal that failed;
  \<^item> \<open>Park\<close>: \<^verbatim>\<open>active_amount.fetch_sub(1)\<close>;
  \<^item> \<open>Publish\<close>: store \<^verbatim>\<open>worker_amount + 1\<close> into \<^verbatim>\<open>stealer_amount\<close> and notify;
  \<^item> \<open>Wait\<close>: \<^verbatim>\<open>stealer_amount.wait(worker_amount)\<close>;
  \<^item> \<open>Woken\<close>: load \<^verbatim>\<open>stealer_amount\<close> (sequentially consistent) and return or go on;
  \<^item> \<open>Resume\<close>: \<^verbatim>\<open>active_amount.fetch_add(1)\<close>, after a false wait;
  \<^item> \<open>Yield\<close>: \<^verbatim>\<open>std::this_thread::yield()\<close>;
  \<^item> \<open>Returned\<close>: the worker has returned from \<^verbatim>\<open>work_loop\<close>.
\<close>

datatype control = Own | Enter | Steal | Leave | RunStolen | Check | Park | Publish | Wait
  | Woken | Resume | Yield | Returned

text \<open>
  The events are the atomic operations on the two counters, with the value they read or
  write, and the steps on the deques, whose outcome the transition system leaves open.
\<close>

datatype event =
    PopJob
  | PopNull
  | FetchAddStealer "32 word"
  | StealJob
  | StealNull
  | FetchSubStealer "32 word"
  | RunStolenJob
  | LoadStealerRelaxed "32 word"
  | FetchSubActive "32 word"
  | StoreStealer "32 word"
  | WaitStealer
  | LoadStealer "32 word"
  | FetchAddActive "32 word"
  | YieldThread

record scheduler =
  worker_amount :: "32 word"
  stealer_amount :: "32 word"
  active_amount :: "32 word"
  at :: "nat \<Rightarrow> control"

text \<open>
  \<^verbatim>\<open>Scheduler::run\<close> stores 0 to \<^verbatim>\<open>stealer_amount\<close> and \<^verbatim>\<open>worker_amount\<close> to \<^verbatim>\<open>active_amount\<close>
  before the workers pass the barrier and enter the loop.
\<close>

definition run_start :: "32 word \<Rightarrow> scheduler" where
  "run_start n = \<lparr>worker_amount = n, stealer_amount = 0, active_amount = n, at = (\<lambda>w. Own)\<rparr>"

text \<open>The control point that an event leads to.\<close>

fun after :: "32 word \<Rightarrow> event \<Rightarrow> control" where
  "after n PopJob = Own"
| "after n PopNull = Enter"
| "after n (FetchAddStealer old) = Steal"
| "after n StealJob = Leave"
| "after n StealNull = Check"
| "after n (FetchSubStealer old) = RunStolen"
| "after n RunStolenJob = Own"
| "after n (LoadStealerRelaxed v) = (if v \<ge> n then Park else Yield)"
| "after n (FetchSubActive old) = (if old = 1 then Publish else Wait)"
| "after n (StoreStealer v) = Wait"
| "after n WaitStealer = Woken"
| "after n (LoadStealer v) = (if v > n then Returned else Resume)"
| "after n (FetchAddActive old) = Yield"
| "after n YieldThread = Steal"

text \<open>
  One step of worker \<open>w\<close>: the event and the new values of the two counters. \<open>found\<close> is
  the outcome of the pop or of the steal, when the step is one. A worker that waits can
  step only when \<^verbatim>\<open>stealer_amount\<close> differs from \<^verbatim>\<open>worker_amount\<close>, and a worker that has
  returned does not step.
\<close>

definition work_loop_event :: "scheduler \<Rightarrow> nat \<Rightarrow> bool \<Rightarrow> (event \<times> 32 word \<times> 32 word) option" where
  "work_loop_event s w found =
    (let n = worker_amount s; st = stealer_amount s; ac = active_amount s in
     case at s w of
       Own \<Rightarrow> Some (if found then PopJob else PopNull, st, ac)
     | Enter \<Rightarrow> Some (FetchAddStealer st, st + 1, ac)
     | Steal \<Rightarrow> Some (if found then StealJob else StealNull, st, ac)
     | Leave \<Rightarrow> Some (FetchSubStealer st, st - 1, ac)
     | RunStolen \<Rightarrow> Some (RunStolenJob, st, ac)
     | Check \<Rightarrow> Some (LoadStealerRelaxed st, st, ac)
     | Park \<Rightarrow> Some (FetchSubActive ac, st, ac - 1)
     | Publish \<Rightarrow> Some (StoreStealer (n + 1), n + 1, ac)
     | Wait \<Rightarrow> if st \<noteq> n then Some (WaitStealer, st, ac) else None
     | Woken \<Rightarrow> Some (LoadStealer st, st, ac)
     | Resume \<Rightarrow> Some (FetchAddActive ac, st, ac + 1)
     | Yield \<Rightarrow> Some (YieldThread, st, ac)
     | Returned \<Rightarrow> None)"

definition work_loop_step :: "scheduler \<Rightarrow> nat \<Rightarrow> bool \<Rightarrow> (event \<times> scheduler) option" where
  "work_loop_step s w found =
    (if \<not> w < unat (worker_amount s) then None
     else
       (case work_loop_event s w found of
          None \<Rightarrow> None
        | Some (e, st, ac) \<Rightarrow>
            Some (e, s\<lparr>stealer_amount := st, active_amount := ac,
                       at := (at s)(w := after (worker_amount s) e)\<rparr>)))"

text \<open>
  An execution follows a schedule, the list of the workers that step with the outcomes
  of their pops and steals, and yields the trace of the events with their workers.
\<close>

fun work_loop_run ::
  "scheduler \<Rightarrow> (nat \<times> bool) list \<Rightarrow> ((nat \<times> event) list \<times> scheduler) option" where
  "work_loop_run s [] = Some ([], s)"
| "work_loop_run s ((w, found) # schedule) =
    (case work_loop_step s w found of
       None \<Rightarrow> None
     | Some (e, s1) \<Rightarrow>
         (case work_loop_run s1 schedule of
            None \<Rightarrow> None
          | Some (es, s2) \<Rightarrow> Some ((w, e) # es, s2)))"

text \<open>The last event of a worker in a trace.\<close>

fun last_event :: "nat \<Rightarrow> (nat \<times> event) list \<Rightarrow> event option" where
  "last_event w [] = None"
| "last_event w ((u, e) # es) =
    (case last_event w es of
       Some e' \<Rightarrow> Some e'
     | None \<Rightarrow> if u = w then Some e else None)"

section \<open>Properties\<close>

subsection \<open>Word arithmetic of the deque\<close>

lemma scast_eq_capacity:
  "((scast (w :: 32 word) :: 64 word) = queue_capacity) = (w = 4096)"
proof
  assume a: "(scast w :: 64 word) = queue_capacity"
  have "sint (scast w :: 64 word) = sint w"
    by (rule sint_up_scast) (simp add: is_up)
  with a have "sint w = sint (4096 :: 64 word)"
    by (simp add: queue_capacity_def)
  then have "sint w = sint (4096 :: 32 word)"
    by simp
  then show "w = 4096"
    by (rule signed_word_eqI)
next
  assume "w = 4096"
  then show "(scast w :: 64 word) = queue_capacity"
    by (simp add: queue_capacity_def)
qed

lemma ring_index_eq: "ring_index i = unat i mod 4096"
proof -
  have m: "(scast i :: 64 word) mod 4096 = take_bit 12 (scast i :: 64 word)"
    using take_bit_eq_mod [of 12 "scast i :: 64 word"] by simp
  have "take_bit 12 (scast i :: 64 word) = ucast (take_bit 12 i)"
    by (rule bit_word_eqI) (auto simp add: bit_take_bit_iff bit_word_scast_iff bit_word_ucast_iff)
  then have "unat ((scast i :: 64 word) mod 4096) = unat (ucast (take_bit 12 i) :: 64 word)"
    using m by simp
  also have "\<dots> = unat (take_bit 12 i)"
  proof -
    have "unat (take_bit 12 i) < 2 ^ 32"
      using unsigned_less [of "take_bit 12 i", where ?'a = nat] by simp
    then have "unat (take_bit 12 i) < 2 ^ 64"
      by simp
    then show ?thesis
      by (simp add: unsigned_ucast_eq take_bit_eq_mod)
  qed
  also have "\<dots> = unat i mod 4096"
    by (simp add: take_bit_eq_mod unat_mod)
  finally show ?thesis
    by (simp add: ring_index_def queue_capacity_def)
qed

lemma ring_index_less: "ring_index i < 4096"
  by (simp add: ring_index_eq)

subsection \<open>JobQueue::push\<close>

lemma JobQueue_push_full:
  "sint (bottom q) < 2147483647 \<Longrightarrow> bottom q - top' q = 4096 \<Longrightarrow>
    JobQueue_push q job = Inr (False, q)"
  by (simp add: JobQueue_push_def JobQueue_size_max_def scast_eq_capacity Let_def)

lemma JobQueue_push_room:
  "sint (bottom q) < 2147483647 \<Longrightarrow> bottom q - top' q \<noteq> 4096 \<Longrightarrow>
    JobQueue_push q job =
      Inr (True, q\<lparr>ring_buffer := (ring_buffer q)(unat (bottom q) mod 4096 := job),
                    bottom := bottom q + 1\<rparr>)"
  by (simp add: JobQueue_push_def JobQueue_size_max_def scast_eq_capacity ring_index_eq Let_def)

lemma JobQueue_push_assert:
  "\<not> sint (bottom q) < 2147483647 \<Longrightarrow> JobQueue_push q job = Inl AssertionFailed"
  by (simp add: JobQueue_push_def JobQueue_size_max_def Let_def)

text \<open>
  Claim C3, as amended. \<^verbatim>\<open>JobQueue::push\<close> asserts \<^verbatim>\<open>local_bottom < size_max\<close>. On every
  deque state that passes the assertion, \<^verbatim>\<open>push\<close> returns false exactly when
  \<open>bottom - top\<close> (in \<^verbatim>\<open>int32_t\<close> arithmetic) equals the capacity 4096, and then the
  deque is unchanged: \<open>bottom\<close>, \<open>top\<close> and every slot; otherwise it stores the job into
  slot \<open>bottom mod 4096\<close>, increments \<open>bottom\<close> by one and returns true.
\<close>

theorem JobQueue_push_spec:
  "sint (bottom q) < 2147483647 \<Longrightarrow>
    JobQueue_push q job =
      (if bottom q - top' q = 4096 then Inr (False, q)
       else Inr (True, q\<lparr>ring_buffer := (ring_buffer q)(unat (bottom q) mod 4096 := job),
                          bottom := bottom q + 1\<rparr>))"
  by (simp add: JobQueue_push_full JobQueue_push_room)

theorem JobQueue_push_spec_witness:
  "JobQueue_push \<lparr>ring_buffer = (\<lambda>i. None), top' = 0, bottom = 4096\<rparr> (Some (RootJob 0))
     = Inr (False, \<lparr>ring_buffer = (\<lambda>i. None), top' = 0, bottom = 4096\<rparr>)
   \<and> JobQueue_push \<lparr>ring_buffer = (\<lambda>i. None), top' = 3, bottom = 5\<rparr> (Some (RootJob 0))
     = Inr (True, \<lparr>ring_buffer = (\<lambda>i. None)(5 := Some (RootJob 0)), top' = 3, bottom = 6\<rparr>)"
  using JobQueue_push_spec [of "\<lparr>ring_buffer = (\<lambda>i. None), top' = 0, bottom = 4096\<rparr>" "Some (RootJob 0)"]
    JobQueue_push_spec [of "\<lparr>ring_buffer = (\<lambda>i. None), top' = 3, bottom = 5\<rparr>" "Some (RootJob 0)"]
  by simp

text \<open>
  Claim C3, as stated, fails on the deque state with \<open>bottom = 2147483647\<close>: the length
  is not the capacity, and \<^verbatim>\<open>push\<close> returns neither true nor false, since its assertion
  fails.
\<close>

theorem JobQueue_push_counterexample:
  "JobQueue_push \<lparr>ring_buffer = (\<lambda>i. None), top' = 2147483647, bottom = 2147483647\<rparr>
      (Some (RootJob 0)) = Inl AssertionFailed
   \<and> bottom \<lparr>ring_buffer = (\<lambda>i. None :: job_ptr), top' = 2147483647, bottom = 2147483647\<rparr>
      - top' \<lparr>ring_buffer = (\<lambda>i. None :: job_ptr), top' = 2147483647, bottom = 2147483647\<rparr>
      \<noteq> 4096"
  by (simp add: JobQueue_push_assert)

subsection \<open>JobQueue::pop\<close>

lemma JobQueue_pop_empty:
  "sint (bottom q - 1) < sint (top' q) \<Longrightarrow> JobQueue_pop q t = (None, q)"
  by (simp add: JobQueue_pop_def Let_def)

lemma JobQueue_pop_many:
  "sint (top' q) < sint (bottom q - 1) \<Longrightarrow>
    JobQueue_pop q t = (ring_buffer q (unat (bottom q - 1) mod 4096), q\<lparr>bottom := bottom q - 1\<rparr>)"
  by (simp add: JobQueue_pop_def Let_def ring_index_eq)

lemma JobQueue_pop_last_success:
  assumes "bottom q - 1 = top' q"
  shows "JobQueue_pop q (top' q) =
      (ring_buffer q (unat (top' q) mod 4096), q\<lparr>top' := top' q + 1, bottom := top' q + 1\<rparr>)"
proof -
  have e: "bottom q = top' q + 1"
    using assms by (simp add: algebra_simps eq_diff_eq)
  show ?thesis
    by (simp add: JobQueue_pop_def Let_def ring_index_eq compare_exchange_strong_def e)
qed

lemma JobQueue_pop_last_failure:
  assumes "bottom q - 1 = top' q" and "t \<noteq> top' q"
  shows "JobQueue_pop q t = (None, q\<lparr>top' := t, bottom := top' q + 1\<rparr>)"
proof -
  have e: "bottom q = top' q + 1"
    using assms(1) by (simp add: algebra_simps eq_diff_eq)
  show ?thesis
    using assms(2)
    by (simp add: JobQueue_pop_def Let_def ring_index_eq compare_exchange_strong_def e)
qed

lemma JobQueue_push_pop:
  assumes "JobQueue_push q0 job = Inr (True, q)" and "sint (top' q0) < sint (bottom q0)"
  shows "JobQueue_pop q t = (job, q\<lparr>bottom := bottom q0\<rparr>) \<and> top' q = top' q0"
proof -
  have b: "sint (bottom q0) < 2147483647"
    using assms(1) by (cases "sint (bottom q0) < 2147483647") (simp_all add: JobQueue_push_assert)
  have q: "q = q0\<lparr>ring_buffer := (ring_buffer q0)(unat (bottom q0) mod 4096 := job),
                  bottom := bottom q0 + 1\<rparr>"
    using assms(1) b
    by (cases "bottom q0 - top' q0 = 4096") (simp_all add: JobQueue_push_full JobQueue_push_room)
  have "sint (top' q) < sint (bottom q - 1)"
    using assms(2) by (simp add: q)
  then have "JobQueue_pop q t =
      (ring_buffer q (unat (bottom q - 1) mod 4096), q\<lparr>bottom := bottom q - 1\<rparr>)"
    by (rule JobQueue_pop_many)
  then show ?thesis
    by (simp add: q)
qed

text \<open>
  Claim C2. \<open>JobQueue_pop q t\<close> is a call of \<^verbatim>\<open>pop\<close> on the deque \<open>q\<close> in which the
  compare-exchange finds \<open>t\<close> in \<^verbatim>\<open>top\<close>; the call is uncontended when \<open>t = top' q\<close>.
  \<^item> Empty deque (\<open>bottom - 1 < top\<close> after the speculative decrement): \<^verbatim>\<open>pop\<close> returns
    null and leaves the deque as it was, so \<open>bottom\<close> has its prior value and a length
    of zero stays zero.
  \<^item> More than one element (\<open>bottom - 1 > top\<close>): it returns the job of slot
    \<open>(bottom - 1) mod 4096\<close>, which is the job of the most recent \<^verbatim>\<open>push\<close>, and
    changes \<open>bottom\<close> only.
  \<^item> Last element (\<open>bottom - 1 = top\<close>): \<open>bottom\<close> becomes the claimed index plus one
    whether the compare-exchange succeeds, as it does when uncontended, returning the
    job and incrementing \<open>top\<close>, or fails, returning null.
\<close>

theorem JobQueue_pop_spec:
  "(sint (bottom q - 1) < sint (top' q) \<longrightarrow>
      JobQueue_pop q t = (None, q) \<and>
      (bottom q = top' q \<longrightarrow>
        bottom (snd (JobQueue_pop q t)) - top' (snd (JobQueue_pop q t)) = 0))
   \<and> (sint (top' q) < sint (bottom q - 1) \<longrightarrow>
      JobQueue_pop q t =
        (ring_buffer q (unat (bottom q - 1) mod 4096), q\<lparr>bottom := bottom q - 1\<rparr>))
   \<and> (\<forall>q0 job. JobQueue_push q0 job = Inr (True, q) \<longrightarrow> sint (top' q0) < sint (bottom q0) \<longrightarrow>
      JobQueue_pop q t = (job, q\<lparr>bottom := bottom q0\<rparr>) \<and> top' q = top' q0)
   \<and> (bottom q - 1 = top' q \<longrightarrow>
      JobQueue_pop_uncontended q =
        (ring_buffer q (unat (bottom q - 1) mod 4096),
         q\<lparr>top' := top' q + 1, bottom := (bottom q - 1) + 1\<rparr>))
   \<and> (bottom q - 1 = top' q \<longrightarrow> t \<noteq> top' q \<longrightarrow>
      JobQueue_pop q t = (None, q\<lparr>top' := t, bottom := (bottom q - 1) + 1\<rparr>))"
proof (intro conjI impI allI)
  assume "sint (bottom q - 1) < sint (top' q)"
  then show e: "JobQueue_pop q t = (None, q)"
    by (rule JobQueue_pop_empty)
  assume "bottom q = top' q"
  then show "bottom (snd (JobQueue_pop q t)) - top' (snd (JobQueue_pop q t)) = 0"
    by (simp add: e)
next
  assume "sint (top' q) < sint (bottom q - 1)"
  then show "JobQueue_pop q t =
      (ring_buffer q (unat (bottom q - 1) mod 4096), q\<lparr>bottom := bottom q - 1\<rparr>)"
    by (rule JobQueue_pop_many)
next
  fix q0 job
  assume p: "JobQueue_push q0 job = Inr (True, q)" "sint (top' q0) < sint (bottom q0)"
  show "JobQueue_pop q t = (job, q\<lparr>bottom := bottom q0\<rparr>)"
    using JobQueue_push_pop [OF p] by simp
  show "top' q = top' q0"
    using JobQueue_push_pop [OF p, of t] by simp
next
  assume l: "bottom q - 1 = top' q"
  show "JobQueue_pop_uncontended q =
      (ring_buffer q (unat (bottom q - 1) mod 4096),
       q\<lparr>top' := top' q + 1, bottom := (bottom q - 1) + 1\<rparr>)"
    unfolding JobQueue_pop_uncontended_def JobQueue_pop_last_success [OF l]
    by (simp add: l)
next
  assume l: "bottom q - 1 = top' q" and "t \<noteq> top' q"
  then show "JobQueue_pop q t = (None, q\<lparr>top' := t, bottom := (bottom q - 1) + 1\<rparr>)"
    by (simp add: JobQueue_pop_last_failure)
qed

theorem JobQueue_pop_spec_witness:
  "JobQueue_pop \<lparr>ring_buffer = (\<lambda>i. None), top' = 2, bottom = 2\<rparr> 2
     = (None, \<lparr>ring_buffer = (\<lambda>i. None), top' = 2, bottom = 2\<rparr>)
   \<and> JobQueue_pop \<lparr>ring_buffer = (\<lambda>i. None)(1 := Some (RootJob 7)), top' = 0, bottom = 2\<rparr> 0
     = (Some (RootJob 7), \<lparr>ring_buffer = (\<lambda>i. None)(1 := Some (RootJob 7)), top' = 0, bottom = 1\<rparr>)
   \<and> JobQueue_pop_uncontended \<lparr>ring_buffer = (\<lambda>i. None)(0 := Some (RootJob 7)), top' = 0, bottom = 1\<rparr>
     = (Some (RootJob 7), \<lparr>ring_buffer = (\<lambda>i. None)(0 := Some (RootJob 7)), top' = 1, bottom = 1\<rparr>)
   \<and> JobQueue_pop \<lparr>ring_buffer = (\<lambda>i. None)(0 := Some (RootJob 7)), top' = 0, bottom = 1\<rparr> 1
     = (None, \<lparr>ring_buffer = (\<lambda>i. None)(0 := Some (RootJob 7)), top' = 1, bottom = 1\<rparr>)
   \<and> JobQueue_push \<lparr>ring_buffer = (\<lambda>i. None), top' = 4, bottom = 5\<rparr> (Some (RootJob 9))
     = Inr (True, \<lparr>ring_buffer = (\<lambda>i. None)(5 := Some (RootJob 9)), top' = 4, bottom = 6\<rparr>)
   \<and> JobQueue_pop \<lparr>ring_buffer = (\<lambda>i. None)(5 := Some (RootJob 9)), top' = 4, bottom = 6\<rparr> 4
     = (Some (RootJob 9), \<lparr>ring_buffer = (\<lambda>i. None)(5 := Some (RootJob 9)), top' = 4, bottom = 5\<rparr>)"
  using JobQueue_pop_spec [of "\<lparr>ring_buffer = (\<lambda>i. None), top' = 2, bottom = 2\<rparr>" 2]
    JobQueue_pop_spec [of "\<lparr>ring_buffer = (\<lambda>i. None)(5 := Some (RootJob 9)), top' = 4, bottom = 6\<rparr>" 4,
      THEN conjunct2, THEN conjunct2, THEN conjunct1, rule_format,
      of "\<lparr>ring_buffer = (\<lambda>i. None), top' = 4, bottom = 5\<rparr>" "Some (RootJob 9)"]
    JobQueue_push_room [of "\<lparr>ring_buffer = (\<lambda>i. None), top' = 4, bottom = 5\<rparr>" "Some (RootJob 9)"]
    JobQueue_pop_spec [of "\<lparr>ring_buffer = (\<lambda>i. None)(1 := Some (RootJob 7)), top' = 0, bottom = 2\<rparr>" 0]
    JobQueue_pop_spec [of "\<lparr>ring_buffer = (\<lambda>i. None)(0 := Some (RootJob 7)), top' = 0, bottom = 1\<rparr>" 1]
  by simp

subsection \<open>JobChunkAllocator::allocate\<close>

lemma JobChunkAllocator_allocate_ok:
  assumes "unat (next_index a) < 4294967295"
  shows "JobChunkAllocator_allocate a =
    Inr (chunk_of_call (chunks_size a) (Suc (unat (next_index a))),
         a\<lparr>next_index := next_index a + 1\<rparr>)"
proof -
  have "next_index a < JobChunkAllocator_size_max"
    using assms by (simp add: JobChunkAllocator_size_max_def word_less_nat_alt)
  then show ?thesis
    by (auto simp add: JobChunkAllocator_allocate_def Let_def chunk_of_call_def)
qed

lemma JobChunkAllocator_allocate_assert:
  assumes "unat (next_index a) = 4294967295"
  shows "JobChunkAllocator_allocate a = Inl AssertionFailed"
proof -
  have "\<not> next_index a < JobChunkAllocator_size_max"
    using assms by (simp add: JobChunkAllocator_size_max_def word_less_nat_alt)
  then show ?thesis
    by (simp add: JobChunkAllocator_allocate_def Let_def)
qed

lemma unat_next_index_Suc:
  assumes "unat (i :: 32 word) < 4294967295"
  shows "unat (i + 1) = Suc (unat i)"
  using assms by (simp add: unat_word_ariths)

lemma allocate_calls_from:
  "unat (next_index a) + n < 4294967296 \<Longrightarrow>
    allocate_calls n a =
      Inr (map (chunk_of_call (chunks_size a)) [Suc (unat (next_index a)) ..< Suc (unat (next_index a) + n)],
           a\<lparr>next_index := next_index a + of_nat n\<rparr>)"
proof (induction n arbitrary: a)
  case 0
  then show ?case by simp
next
  case (Suc n)
  let ?a1 = "a\<lparr>next_index := next_index a + 1\<rparr>"
  have lt: "unat (next_index a) < 4294967295"
    using Suc.prems by simp
  have u: "unat (next_index ?a1) = Suc (unat (next_index a))"
    using lt by (simp add: unat_next_index_Suc)
  have "unat (next_index ?a1) + n < 4294967296"
    using Suc.prems u by simp
  then have ih: "allocate_calls n ?a1 =
      Inr (map (chunk_of_call (chunks_size ?a1)) [Suc (unat (next_index ?a1)) ..< Suc (unat (next_index ?a1) + n)],
           ?a1\<lparr>next_index := next_index ?a1 + of_nat n\<rparr>)"
    by (rule Suc.IH)
  have l: "[Suc (unat (next_index a)) ..< Suc (unat (next_index a) + Suc n)] =
      Suc (unat (next_index a)) # [Suc (Suc (unat (next_index a))) ..< Suc (Suc (unat (next_index a)) + n)]"
    by (simp add: upt_conv_Cons del: upt_Suc)
  have ih': "allocate_calls n ?a1 =
      Inr (map (chunk_of_call (chunks_size a))
             [Suc (Suc (unat (next_index a))) ..< Suc (Suc (unat (next_index a)) + n)],
           a\<lparr>next_index := next_index a + of_nat (Suc n)\<rparr>)"
    unfolding ih u by (simp add: add.assoc del: upt_Suc)
  have "allocate_calls (Suc n) a =
      Inr (chunk_of_call (chunks_size a) (Suc (unat (next_index a))) #
           map (chunk_of_call (chunks_size a))
             [Suc (Suc (unat (next_index a))) ..< Suc (Suc (unat (next_index a)) + n)],
           a\<lparr>next_index := next_index a + of_nat (Suc n)\<rparr>)"
    by (simp add: JobChunkAllocator_allocate_ok [OF lt] ih' del: upt_Suc of_nat_Suc)
  then show ?case
    unfolding l by simp
qed

lemma allocate_calls_overflow:
  "unat (next_index a) + n = 4294967296 \<Longrightarrow> allocate_calls n a = Inl AssertionFailed"
proof (induction n arbitrary: a)
  case 0
  have "unat (next_index a) < 2 ^ 32"
    using unsigned_less [of "next_index a", where ?'a = nat] by simp
  with 0 show ?case by simp
next
  case (Suc n)
  show ?case
  proof (cases "unat (next_index a) = 4294967295")
    case True
    then show ?thesis
      by (simp add: JobChunkAllocator_allocate_assert)
  next
    case False
    let ?a1 = "a\<lparr>next_index := next_index a + 1\<rparr>"
    have lt: "unat (next_index a) < 4294967295"
      using Suc.prems False by simp
    have u: "unat (next_index ?a1) = Suc (unat (next_index a))"
      using lt by (simp add: unat_next_index_Suc)
    have "unat (next_index ?a1) + n = 4294967296"
      using Suc.prems u by simp
    then have "allocate_calls n ?a1 = Inl AssertionFailed"
      by (rule Suc.IH)
    then show ?thesis
      by (simp add: JobChunkAllocator_allocate_ok [OF lt])
  qed
qed

text \<open>
  Claim C7, as amended. \<^verbatim>\<open>allocate\<close> asserts \<^verbatim>\<open>index < size_max\<close>, so fewer than
  \<open>2\<^sup>3\<^sup>2\<close> calls are made between two resets. A call that returns has added one to
  \<^verbatim>\<open>next_index\<close> and changed nothing else. For \<open>n < 2\<^sup>3\<^sup>2\<close>, the first \<open>n\<close> calls since the
  construction with \<open>C\<close> chunks, and likewise since a reset, return the chunks
  \<open>0, 1, \<dots>\<close> in order while the number of the call is at most \<open>C\<close>, and null from call
  \<open>C + 1\<close> on; \<^verbatim>\<open>reset\<close> stores zero to \<^verbatim>\<open>next_index\<close>.
\<close>

theorem JobChunkAllocator_allocate_spec:
  "(JobChunkAllocator_allocate a = Inr (r, a') \<longrightarrow> a' = a\<lparr>next_index := next_index a + 1\<rparr>)
   \<and> (n < 4294967296 \<longrightarrow>
        allocate_calls n (JobChunkAllocator_new C) =
          Inr (map (chunk_of_call (unat C)) [1 ..< Suc n],
               \<lparr>chunks_size = unat C, next_index = of_nat n\<rparr>)
      \<and> allocate_calls n (JobChunkAllocator_reset a) =
          Inr (map (chunk_of_call (chunks_size a)) [1 ..< Suc n], a\<lparr>next_index := of_nat n\<rparr>))
   \<and> next_index (JobChunkAllocator_reset a) = 0"
proof (intro conjI impI)
  assume "JobChunkAllocator_allocate a = Inr (r, a')"
  then show "a' = a\<lparr>next_index := next_index a + 1\<rparr>"
    by (auto simp add: JobChunkAllocator_allocate_def Let_def split: if_splits)
next
  assume n: "n < 4294967296"
  show "allocate_calls n (JobChunkAllocator_new C) =
      Inr (map (chunk_of_call (unat C)) [1 ..< Suc n],
           \<lparr>chunks_size = unat C, next_index = of_nat n\<rparr>)"
    using n allocate_calls_from [of "JobChunkAllocator_new C" n]
    by (simp add: JobChunkAllocator_new_def)
  show "allocate_calls n (JobChunkAllocator_reset a) =
      Inr (map (chunk_of_call (chunks_size a)) [1 ..< Suc n], a\<lparr>next_index := of_nat n\<rparr>)"
    using n allocate_calls_from [of "JobChunkAllocator_reset a" n]
    by (simp add: JobChunkAllocator_reset_def)
next
  show "next_index (JobChunkAllocator_reset a) = 0"
    by (simp add: JobChunkAllocator_reset_def)
qed

theorem JobChunkAllocator_allocate_spec_witness:
  "JobChunkAllocator_allocate \<lparr>chunks_size = 2, next_index = 1\<rparr>
     = Inr (Some 1, \<lparr>chunks_size = 2, next_index = 2\<rparr>)
   \<and> allocate_calls 4 (JobChunkAllocator_new 2)
     = Inr ([Some 0, Some 1, None, None], \<lparr>chunks_size = 2, next_index = 4\<rparr>)
   \<and> allocate_calls 3 (JobChunkAllocator_reset \<lparr>chunks_size = 2, next_index = 4\<rparr>)
     = Inr ([Some 0, Some 1, None], \<lparr>chunks_size = 2, next_index = 3\<rparr>)"
proof -
  have one: "JobChunkAllocator_allocate \<lparr>chunks_size = 2, next_index = 1\<rparr>
      = Inr (Some 1, \<lparr>chunks_size = 2, next_index = 2\<rparr>)"
    by (simp add: JobChunkAllocator_allocate_def JobChunkAllocator_size_max_def Let_def)
  have l4: "map (chunk_of_call 2) [Suc 0 ..< 5] = [Some 0, Some 1, None, None]"
    and l3: "map (chunk_of_call 2) [Suc 0 ..< 4] = [Some 0, Some 1, None]"
    by (simp_all add: upt_rec chunk_of_call_def)
  show ?thesis
    using one
      JobChunkAllocator_allocate_spec [of "\<lparr>chunks_size = 2, next_index = 1\<rparr>" "Some 1"
        "\<lparr>chunks_size = 2, next_index = 2\<rparr>" 4 2]
      JobChunkAllocator_allocate_spec [of "\<lparr>chunks_size = 2, next_index = 4\<rparr>" "Some 1"
        "\<lparr>chunks_size = 2, next_index = 2\<rparr>" 3 2]
    by (simp add: l4 l3)
qed

text \<open>
  Claim C7, as stated, fails at the \<open>2\<^sup>3\<^sup>2\<close>-th call since the construction of an
  allocator of one chunk: the claim makes that call return null, and the call fails its
  assertion instead.
\<close>

theorem JobChunkAllocator_allocate_counterexample:
  "allocate_calls 4294967296 (JobChunkAllocator_new 1) = Inl AssertionFailed"
  by (rule allocate_calls_overflow) (simp add: JobChunkAllocator_new_def)

subsection \<open>Reachability and the ancestor search\<close>

lemma edges_forward:
  "forward ns \<Longrightarrow> (a, d) \<in> edges ns \<Longrightarrow> a < d \<and> d < length ns"
  unfolding forward_def edges_def by blast

lemma reach_forward:
  assumes "forward ns" and "(a, d) \<in> (edges ns)\<^sup>+"
  shows "a < d \<and> d < length ns"
  using assms(2)
proof (induction rule: trancl.induct)
  case (r_into_trancl a b)
  then show ?case using assms(1) by (simp add: edges_forward)
next
  case (trancl_into_trancl a b c)
  then show ?case using edges_forward [OF assms(1), of b c] by simp
qed

lemma reach_step:
  "(a, d) \<in> (edges ns)\<^sup>+ \<longleftrightarrow>
    (a < length ns \<and> (d \<in> set (successors (ns ! a)) \<or>
      (\<exists>s \<in> set (successors (ns ! a)). (s, d) \<in> (edges ns)\<^sup>+)))"
proof
  assume "(a, d) \<in> (edges ns)\<^sup>+"
  then show "a < length ns \<and> (d \<in> set (successors (ns ! a)) \<or>
      (\<exists>s \<in> set (successors (ns ! a)). (s, d) \<in> (edges ns)\<^sup>+))"
    by (cases rule: converse_tranclE) (auto simp add: edges_def)
next
  assume "a < length ns \<and> (d \<in> set (successors (ns ! a)) \<or>
      (\<exists>s \<in> set (successors (ns ! a)). (s, d) \<in> (edges ns)\<^sup>+))"
  then consider "(a, d) \<in> edges ns"
    | s where "(a, s) \<in> edges ns" and "(s, d) \<in> (edges ns)\<^sup>+"
    by (auto simp add: edges_def)
  then show "(a, d) \<in> (edges ns)\<^sup>+"
  proof cases
    case 1
    then show ?thesis by (rule r_into_trancl)
  next
    case 2
    then show ?thesis by (rule trancl_into_trancl2)
  qed
qed

lemma any_is_ancestor_of_sound:
  assumes "\<And>s. s \<in> set ss \<Longrightarrow> is_ancestor_of fuel ns s d = Some (Inr True) \<Longrightarrow> P s"
    and "any_is_ancestor_of fuel ns ss d = Some (Inr True)"
  shows "\<exists>s \<in> set ss. P s"
  using assms
proof (induction ss)
  case Nil
  then show ?case by simp
next
  case (Cons s ss)
  show ?case
  proof (cases "is_ancestor_of fuel ns s d = Some (Inr True)")
    case True
    then show ?thesis using Cons.prems(1) by simp
  next
    case False
    then have "any_is_ancestor_of fuel ns ss d = Some (Inr True)"
      using Cons.prems(2) by (auto split: option.splits sum.splits bool.splits)
    then have "\<exists>s \<in> set ss. P s"
      using Cons.IH Cons.prems(1) by simp
    then show ?thesis by simp
  qed
qed

lemma is_ancestor_of_sound:
  "is_ancestor_of fuel ns a d = Some (Inr True) \<Longrightarrow> (a, d) \<in> (edges ns)\<^sup>+"
proof (induction fuel arbitrary: a)
  case 0
  then show ?case by simp
next
  case (Suc fuel)
  from Suc.prems obtain n where n: "node_at ns a = Some n"
    by (cases "node_at ns a") auto
  then have v: "a < length ns" "n = ns ! a"
    by (auto simp add: node_at_def split: if_splits)
  show ?case
  proof (cases "d \<in> set (successors n)")
    case True
    then show ?thesis using v by (subst reach_step) simp
  next
    case False
    then have "any_is_ancestor_of fuel ns (successors n) d = Some (Inr True)"
      using Suc.prems n by simp
    then have "\<exists>s \<in> set (successors n). (s, d) \<in> (edges ns)\<^sup>+"
      using Suc.IH by (rule any_is_ancestor_of_sound [rotated])
    then show ?thesis using v by (subst reach_step) simp
  qed
qed

lemma any_is_ancestor_of_complete:
  assumes "\<And>s. s \<in> set ss \<Longrightarrow> is_ancestor_of fuel ns s d = Some (Inr (P s))"
  shows "any_is_ancestor_of fuel ns ss d = Some (Inr (\<exists>s \<in> set ss. P s))"
  using assms by (induction ss) (auto split: bool.splits)

lemma is_ancestor_of_complete:
  assumes "forward ns"
  shows "a < length ns \<Longrightarrow> length ns - a \<le> fuel \<Longrightarrow>
    is_ancestor_of fuel ns a d = Some (Inr ((a, d) \<in> (edges ns)\<^sup>+))"
proof (induction fuel arbitrary: a)
  case 0
  then show ?case by simp
next
  case (Suc fuel)
  have n: "node_at ns a = Some (ns ! a)"
    using Suc.prems(1) by (simp add: node_at_def)
  show ?case
  proof (cases "d \<in> set (successors (ns ! a))")
    case True
    then have "(a, d) \<in> (edges ns)\<^sup>+"
      using Suc.prems(1) by (subst reach_step) simp
    then show ?thesis using True n by simp
  next
    case False
    have "is_ancestor_of fuel ns s d = Some (Inr ((s, d) \<in> (edges ns)\<^sup>+))"
      if "s \<in> set (successors (ns ! a))" for s
    proof -
      have "a < s \<and> s < length ns"
        using assms that Suc.prems(1) unfolding forward_def by blast
      then show ?thesis
        using Suc.prems(2) by (intro Suc.IH) auto
    qed
    then have "any_is_ancestor_of fuel ns (successors (ns ! a)) d =
        Some (Inr (\<exists>s \<in> set (successors (ns ! a)). (s, d) \<in> (edges ns)\<^sup>+))"
      by (rule any_is_ancestor_of_complete)
    moreover have "(a, d) \<in> (edges ns)\<^sup>+ \<longleftrightarrow>
        (\<exists>s \<in> set (successors (ns ! a)). (s, d) \<in> (edges ns)\<^sup>+)"
      using False Suc.prems(1) by (subst reach_step) simp
    ultimately show ?thesis
      using False n by simp
  qed
qed

lemma is_redundant_sound:
  "is_redundant fuel ns p cs = Some (Inr True) \<Longrightarrow>
    \<exists>c \<in> set cs. c \<noteq> p \<and> (p, c) \<in> (edges ns)\<^sup>+"
proof (induction cs)
  case Nil
  then show ?case by simp
next
  case (Cons c cs)
  show ?case
  proof (cases "c \<noteq> p \<and> is_ancestor_of fuel ns p c = Some (Inr True)")
    case True
    then show ?thesis using is_ancestor_of_sound [of fuel ns p c] by auto
  next
    case False
    then have "is_redundant fuel ns p cs = Some (Inr True)"
      using Cons.prems by (auto split: if_splits option.splits sum.splits bool.splits)
    then show ?thesis using Cons.IH by auto
  qed
qed

lemma is_redundant_complete:
  assumes "forward ns" and "p < length ns" and "length ns - p \<le> fuel"
  shows "is_redundant fuel ns p cs =
    Some (Inr (\<exists>c \<in> set cs. c \<noteq> p \<and> (p, c) \<in> (edges ns)\<^sup>+))"
proof (induction cs)
  case Nil
  then show ?case by simp
next
  case (Cons c cs)
  have "is_ancestor_of fuel ns p c = Some (Inr ((p, c) \<in> (edges ns)\<^sup>+))"
    using assms by (rule is_ancestor_of_complete)
  then show ?case
    using Cons.IH by (auto split: bool.splits)
qed

lemma add_successor_eq:
  assumes "p < this" and "this < length ns"
  shows "add_successor p this ns =
    Inr (ns[p := (ns ! p)\<lparr>successors := successors (ns ! p) @ [this]\<rparr>,
            this := (ns ! this)\<lparr>initial_predecessor_amount := initial_predecessor_amount (ns ! this) + 1,
                                predecessor_amount := initial_predecessor_amount (ns ! this) + 1\<rparr>])"
  using assms by (simp add: add_successor_def node_at_def Let_def)

lemma forwardD:
  "forward ns \<Longrightarrow> q < length ns \<Longrightarrow> s \<in> set (successors (ns ! q)) \<Longrightarrow> q < s \<and> s < length ns"
  unfolding forward_def by blast

lemma forwardI:
  "(\<And>q s. q < length ns \<Longrightarrow> s \<in> set (successors (ns ! q)) \<Longrightarrow> q < s \<and> s < length ns) \<Longrightarrow> forward ns"
  unfolding forward_def by blast

lemma add_successor_forward:
  assumes "forward ns" and "p < this" and "this < length ns"
    and "add_successor p this ns = Inr ns1"
  shows "forward ns1 \<and> length ns1 = length ns"
proof -
  let ?np = "(ns ! p)\<lparr>successors := successors (ns ! p) @ [this]\<rparr>"
  let ?nt = "(ns ! this)\<lparr>initial_predecessor_amount := initial_predecessor_amount (ns ! this) + 1,
                                predecessor_amount := initial_predecessor_amount (ns ! this) + 1\<rparr>"
  have e: "ns1 = ns[p := ?np, this := ?nt]"
    using assms(4) add_successor_eq [OF assms(2,3)] by simp
  have l: "length ns1 = length ns" using e by simp
  have "forward ns1"
  proof (rule forwardI)
    fix q s
    assume q: "q < length ns1" and s: "s \<in> set (successors (ns1 ! q))"
    consider "q = this" | "q = p" "q \<noteq> this" | "q \<noteq> p" "q \<noteq> this" by blast
    then show "q < s \<and> s < length ns1"
    proof cases
      case 1
      then have "ns1 ! q = ?nt"
        using e assms(3) by simp
      then have "s \<in> set (successors (ns ! this))"
        using s by simp
      then show ?thesis
        using forwardD [OF assms(1) assms(3)] 1 l by simp
    next
      case 2
      then have "ns1 ! q = ?np"
        using e assms(2,3) by simp
      then have "s \<in> set (successors (ns ! p)) \<or> s = this"
        using s by auto
      then show ?thesis
        using forwardD [OF assms(1), of p s] assms(2,3) 2 l by auto
    next
      case 3
      then have "ns1 ! q = ns ! q"
        using e by simp
      then show ?thesis
        using forwardD [OF assms(1), of q s] q s l by simp
    qed
  qed
  then show ?thesis
    using l by simp
qed

subsection \<open>Linking a new node to its predecessors\<close>

lemma link_predecessors_Cons_cases:
  assumes "link_predecessors fuel all this (p # ps) ns = Some (Inr ns')"
  obtains (redundant) "p < this" and "is_redundant fuel ns p all = Some (Inr True)"
      and "link_predecessors fuel all this ps ns = Some (Inr ns')"
    | (linked) ns1 where "p < this" and "is_redundant fuel ns p all = Some (Inr False)"
      and "add_successor p this ns = Inr ns1"
      and "link_predecessors fuel all this ps ns1 = Some (Inr ns')"
  using assms
  by (auto split: if_splits option.splits sum.splits bool.splits)

lemma link_predecessors_forward:
  assumes "link_predecessors fuel all this ps ns = Some (Inr ns')"
    and "forward ns" and "this < length ns"
  shows "forward ns' \<and> length ns' = length ns"
  using assms
proof (induction ps arbitrary: ns)
  case Nil
  then show ?case by simp
next
  case (Cons p ps)
  from Cons.prems(1) show ?case
  proof (cases rule: link_predecessors_Cons_cases)
    case redundant
    then show ?thesis using Cons.IH Cons.prems(2,3) by blast
  next
    case (linked ns1)
    have "forward ns1 \<and> length ns1 = length ns"
      using Cons.prems(2) linked(1) Cons.prems(3) linked(3) by (rule add_successor_forward)
    then show ?thesis
      using Cons.IH [OF linked(4)] Cons.prems(3) by simp
  qed
qed

lemma link_predecessors_total:
  assumes "forward ns" and "this < length ns" and "length ns \<le> fuel"
    and "\<forall>p \<in> set ps. p < this"
  shows "\<exists>ns'. link_predecessors fuel all this ps ns = Some (Inr ns')"
  using assms
proof (induction ps arbitrary: ns)
  case Nil
  then show ?case by simp
next
  case (Cons p ps)
  have p: "p < this" using Cons.prems(4) by simp
  have r: "is_redundant fuel ns p all =
      Some (Inr (\<exists>c \<in> set all. c \<noteq> p \<and> (p, c) \<in> (edges ns)\<^sup>+))"
    using Cons.prems(1,2,3) p by (intro is_redundant_complete) auto
  show ?case
  proof (cases "\<exists>c \<in> set all. c \<noteq> p \<and> (p, c) \<in> (edges ns)\<^sup>+")
    case True
    then have "is_redundant fuel ns p all = Some (Inr True)"
      using r by simp
    moreover have "\<exists>ns'. link_predecessors fuel all this ps ns = Some (Inr ns')"
      using Cons.prems by (intro Cons.IH) auto
    ultimately show ?thesis using p by simp
  next
    case False
    then have f: "is_redundant fuel ns p all = Some (Inr False)"
      using r by simp
    obtain ns1 where a: "add_successor p this ns = Inr ns1"
      using add_successor_eq [OF p Cons.prems(2)] by blast
    have "forward ns1 \<and> length ns1 = length ns"
      using Cons.prems(1) p Cons.prems(2) a by (rule add_successor_forward)
    then have "\<exists>ns'. link_predecessors fuel all this ps ns1 = Some (Inr ns')"
      using Cons.prems by (intro Cons.IH) auto
    then show ?thesis using p f a by simp
  qed
qed

lemma add_successor_fields:
  assumes "p < this" and "this < length ns" and "add_successor p this ns = Inr ns1"
  shows "initial_predecessor_amount (ns1 ! this) = initial_predecessor_amount (ns ! this) + 1"
    and "this \<in> set (successors (ns1 ! p))"
    and "q < length ns \<Longrightarrow> set (successors (ns ! q)) \<subseteq> set (successors (ns1 ! q))"
    and "q < length ns \<Longrightarrow> root_job (ns1 ! q) = root_job (ns ! q)"
    and "q < length ns \<Longrightarrow> unfinished_amount (ns1 ! q) = unfinished_amount (ns ! q)"
proof -
  let ?np = "(ns ! p)\<lparr>successors := successors (ns ! p) @ [this]\<rparr>"
  let ?nt = "(ns ! this)\<lparr>initial_predecessor_amount := initial_predecessor_amount (ns ! this) + 1,
                                predecessor_amount := initial_predecessor_amount (ns ! this) + 1\<rparr>"
  have e: "ns1 = ns[p := ?np, this := ?nt]"
    using assms(3) add_successor_eq [OF assms(1,2)] by simp
  show "initial_predecessor_amount (ns1 ! this) = initial_predecessor_amount (ns ! this) + 1"
    using e assms(2) by simp
  show "this \<in> set (successors (ns1 ! p))"
    using e assms(1,2) by simp
  show "set (successors (ns ! q)) \<subseteq> set (successors (ns1 ! q))" if "q < length ns"
    using e that by (cases "q = this"; cases "q = p") auto
  show "root_job (ns1 ! q) = root_job (ns ! q)" if "q < length ns"
    using e that by (cases "q = this"; cases "q = p") auto
  show "unfinished_amount (ns1 ! q) = unfinished_amount (ns ! q)" if "q < length ns"
    using e that by (cases "q = this"; cases "q = p") auto
qed

lemma edges_add_successor_mono:
  assumes "p < this" and "this < length ns" and "add_successor p this ns = Inr ns1"
  shows "edges ns \<subseteq> edges ns1"
proof
  fix e
  assume e: "e \<in> edges ns"
  obtain q s where qs: "e = (q, s)" by (cases e)
  have "q < length ns" and "s \<in> set (successors (ns ! q))"
    using e qs by (simp_all add: edges_def)
  moreover have "length ns1 = length ns"
    using assms add_successor_eq [OF assms(1,2)] by auto
  ultimately show "e \<in> edges ns1"
    using add_successor_fields(3) [OF assms, of q] qs by (auto simp add: edges_def)
qed

lemma link_predecessors_grows:
  assumes "link_predecessors fuel all this ps ns = Some (Inr ns')"
    and "forward ns" and "this < length ns" and "q < length ns"
  shows "set (successors (ns ! q)) \<subseteq> set (successors (ns' ! q))
    \<and> root_job (ns' ! q) = root_job (ns ! q)
    \<and> unfinished_amount (ns' ! q) = unfinished_amount (ns ! q)"
  using assms
proof (induction ps arbitrary: ns)
  case Nil
  then show ?case by simp
next
  case (Cons p ps)
  from Cons.prems(1) show ?case
  proof (cases rule: link_predecessors_Cons_cases)
    case redundant
    then show ?thesis using Cons.IH Cons.prems(2,3,4) by blast
  next
    case (linked ns1)
    have f: "forward ns1 \<and> length ns1 = length ns"
      using Cons.prems(2) linked(1) Cons.prems(3) linked(3) by (rule add_successor_forward)
    have "set (successors (ns1 ! q)) \<subseteq> set (successors (ns' ! q))
        \<and> root_job (ns' ! q) = root_job (ns1 ! q)
        \<and> unfinished_amount (ns' ! q) = unfinished_amount (ns1 ! q)"
      using Cons.IH [OF linked(4)] f Cons.prems(3,4) by simp
    then show ?thesis
      using add_successor_fields(3,4,5) [OF linked(1) Cons.prems(3) linked(3) Cons.prems(4)]
      by auto
  qed
qed

lemma link_predecessors_survivors:
  assumes "link_predecessors fuel all this ps ns = Some (Inr ns')"
    and "forward ns" and "this < length ns" and "length ns \<le> fuel"
    and "E \<subseteq> edges ns"
  shows "\<exists>k \<le> length (filter (\<lambda>p. \<forall>c \<in> set all. c \<noteq> p \<longrightarrow> (p, c) \<notin> E\<^sup>+) ps).
      initial_predecessor_amount (ns' ! this) = initial_predecessor_amount (ns ! this) + of_nat k
      \<and> (\<forall>m \<in> set ps. (\<forall>c \<in> set all. c \<le> m) \<longrightarrow> 1 \<le> k \<and> this \<in> set (successors (ns' ! m)))"
  using assms
proof (induction ps arbitrary: ns)
  case Nil
  then show ?case by simp
next
  case (Cons p ps)
  let ?S = "\<lambda>p. \<forall>c \<in> set all. c \<noteq> p \<longrightarrow> (p, c) \<notin> E\<^sup>+"
  from Cons.prems(1) show ?case
  proof (cases rule: link_predecessors_Cons_cases)
    case redundant
    obtain k where k: "k \<le> length (filter ?S ps)"
      "initial_predecessor_amount (ns' ! this) = initial_predecessor_amount (ns ! this) + of_nat k"
      "\<forall>m \<in> set ps. (\<forall>c \<in> set all. c \<le> m) \<longrightarrow> 1 \<le> k \<and> this \<in> set (successors (ns' ! m))"
      using Cons.IH [OF redundant(3) Cons.prems(2,3,4,5)] by blast
    obtain c where c: "c \<in> set all" "c \<noteq> p" "(p, c) \<in> (edges ns)\<^sup>+"
      using is_redundant_sound [OF redundant(2)] by blast
    have "p < c"
      using reach_forward [OF Cons.prems(2) c(3)] by simp
    then have "\<not> (\<forall>c \<in> set all. c \<le> p)"
      using c(1) by (auto intro!: bexI [of _ c])
    then have "\<forall>m \<in> set (p # ps). (\<forall>c \<in> set all. c \<le> m) \<longrightarrow> 1 \<le> k \<and> this \<in> set (successors (ns' ! m))"
      using k(3) by auto
    moreover have "k \<le> length (filter ?S (p # ps))"
      using k(1) by simp
    ultimately show ?thesis
      using k(2) by (intro exI [of _ k]) simp
  next
    case (linked ns1)
    have f: "forward ns1" "length ns1 = length ns"
      using add_successor_forward [OF Cons.prems(2) linked(1) Cons.prems(3) linked(3)] by simp_all
    have "edges ns \<subseteq> edges ns1"
      using linked(1) Cons.prems(3) linked(3) by (rule edges_add_successor_mono)
    then have E1: "E \<subseteq> edges ns1"
      using Cons.prems(5) by blast
    obtain k where k: "k \<le> length (filter ?S ps)"
      "initial_predecessor_amount (ns' ! this) = initial_predecessor_amount (ns1 ! this) + of_nat k"
      "\<forall>m \<in> set ps. (\<forall>c \<in> set all. c \<le> m) \<longrightarrow> 1 \<le> k \<and> this \<in> set (successors (ns' ! m))"
      using Cons.IH [OF linked(4) f(1) _ _ E1] Cons.prems(3,4) f(2) by auto
    have "is_redundant fuel ns p all =
        Some (Inr (\<exists>c \<in> set all. c \<noteq> p \<and> (p, c) \<in> (edges ns)\<^sup>+))"
      using Cons.prems(2,3,4) linked(1) by (intro is_redundant_complete) auto
    then have n: "\<forall>c \<in> set all. c \<noteq> p \<longrightarrow> (p, c) \<notin> (edges ns)\<^sup>+"
      using linked(2) by auto
    have "E\<^sup>+ \<subseteq> (edges ns)\<^sup>+"
      using Cons.prems(5) by (rule trancl_mono_subset)
    then have s: "?S p"
      using n by blast
    have i: "initial_predecessor_amount (ns1 ! this) = initial_predecessor_amount (ns ! this) + 1"
      using linked(1) Cons.prems(3) linked(3) by (rule add_successor_fields(1))
    have "this \<in> set (successors (ns1 ! p))"
      using linked(1) Cons.prems(3) linked(3) by (rule add_successor_fields(2))
    moreover have "set (successors (ns1 ! p)) \<subseteq> set (successors (ns' ! p))"
      using link_predecessors_grows [OF linked(4) f(1), of p] Cons.prems(3) linked(1) f(2) by simp
    ultimately have p: "this \<in> set (successors (ns' ! p))"
      by blast
    have "\<forall>m \<in> set (p # ps). (\<forall>c \<in> set all. c \<le> m) \<longrightarrow>
        1 \<le> Suc k \<and> this \<in> set (successors (ns' ! m))"
      using k(3) p by auto
    moreover have "initial_predecessor_amount (ns' ! this) =
        initial_predecessor_amount (ns ! this) + of_nat (Suc k)"
      using k(2) i by simp
    moreover have "Suc k \<le> length (filter ?S (p # ps))"
      using k(1) s by simp
    ultimately show ?thesis
      by (intro exI [of _ "Suc k"]) simp
  qed
qed

subsection \<open>Creating nodes and building graphs\<close>

lemma successors_JobGraphNode_new [simp]:
  "successors (JobGraphNode_new f ps this) = []"
  "root_job (JobGraphNode_new f ps this) =
    \<lparr>param_buffer = ps, function' = f, node = Some this\<rparr>"
  "initial_predecessor_amount (JobGraphNode_new f ps this) = 0"
  "predecessor_amount (JobGraphNode_new f ps this) = 0"
  "unfinished_amount (JobGraphNode_new f ps this) = 1"
  by (simp_all add: JobGraphNode_new_def memcpy_def)

lemma forward_append_new:
  assumes "forward ns"
  shows "forward (ns @ [JobGraphNode_new f ps this])"
proof (rule forwardI)
  fix q s
  assume q: "q < length (ns @ [JobGraphNode_new f ps this])"
    and s: "s \<in> set (successors ((ns @ [JobGraphNode_new f ps this]) ! q))"
  have "q < length ns"
    using q s by (cases "q = length ns") (auto simp add: nth_append)
  then show "q < s \<and> s < length (ns @ [JobGraphNode_new f ps this])"
    using forwardD [OF assms, of q s] s by (auto simp add: nth_append)
qed

lemma edges_append_new:
  "edges (ns @ [JobGraphNode_new f ps this]) = edges ns"
proof -
  have "(p < length (ns @ [JobGraphNode_new f ps this]) \<and>
      s \<in> set (successors ((ns @ [JobGraphNode_new f ps this]) ! p)))
      = (p < length ns \<and> s \<in> set (successors (ns ! p)))" for p s
    by (cases "p = length ns") (auto simp add: nth_append)
  then show ?thesis
    unfolding edges_def by simp
qed

lemma new_node_preds_success:
  assumes "new_node_preds fuel g f ps preds = Some (Inr (g1, this))" and "forward (nodes g)"
  shows "this = length (nodes g)"
    and "forward (nodes g1)"
    and "length (nodes g1) = Suc (length (nodes g))"
    and "root_nodes g1 = root_nodes g"
    and "q < length (nodes g) \<Longrightarrow> root_job (nodes g1 ! q) = root_job (nodes g ! q)"
    and "root_job (nodes g1 ! this) = \<lparr>param_buffer = ps, function' = f, node = Some this\<rparr>"
proof -
  let ?ns = "nodes g @ [JobGraphNode_new f ps (length (nodes g))]"
  obtain ns1 where l: "link_predecessors fuel preds (length (nodes g)) preds ?ns = Some (Inr ns1)"
    and g1: "g1 = g\<lparr>nodes := ns1\<rparr>" and t: "this = length (nodes g)"
    using assms(1)
    by (auto simp add: new_node_preds_def Let_def split: option.splits sum.splits)
  have f: "forward ?ns"
    using assms(2) by (rule forward_append_new)
  have fl: "forward ns1 \<and> length ns1 = length ?ns"
    using l f by (rule link_predecessors_forward) simp
  show "this = length (nodes g)" by (fact t)
  show "forward (nodes g1)" using fl g1 by simp
  show "length (nodes g1) = Suc (length (nodes g))" using fl g1 by simp
  show "root_nodes g1 = root_nodes g" using g1 by simp
  show "root_job (nodes g1 ! q) = root_job (nodes g ! q)" if "q < length (nodes g)"
    using link_predecessors_grows [OF l f, of q] that g1 by (simp add: nth_append)
  show "root_job (nodes g1 ! this) = \<lparr>param_buffer = ps, function' = f, node = Some this\<rparr>"
    using link_predecessors_grows [OF l f, of "length (nodes g)"] g1 t by simp
qed

lemma new_node_facts:
  assumes "forward (nodes g)"
  shows "forward (nodes (fst (new_node g f ps)))"
    and "length (nodes (fst (new_node g f ps))) = Suc (length (nodes g))"
    and "root_nodes (fst (new_node g f ps)) = root_nodes g @ [length (nodes g)]"
    and "q < length (nodes g) \<Longrightarrow> root_job (nodes (fst (new_node g f ps)) ! q) = root_job (nodes g ! q)"
    and "root_job (nodes (fst (new_node g f ps)) ! length (nodes g)) =
      \<lparr>param_buffer = ps, function' = f, node = Some (length (nodes g))\<rparr>"
  using forward_append_new [OF assms, of f ps "length (nodes g)"]
  by (simp_all add: new_node_def Let_def nth_append)

lemma root_creations_Nil: "root_creations [] = []"
  by (simp add: root_creations_def)

lemma root_creations_Cons:
  "root_creations (c # cs) = (if is_NewNode c then [0] else []) @ map Suc (root_creations cs)"
proof -
  have "[0 ..< length (c # cs)] = 0 # map Suc [0 ..< length cs]"
    by (simp add: upt_conv_Cons map_Suc_upt del: upt_Suc)
  then show ?thesis
    by (simp add: root_creations_def filter_map comp_def del: upt_Suc)
qed

lemma construct_inv:
  assumes "construct fuel cs g = Some (Inr g')" and "forward (nodes g)"
  shows "forward (nodes g')
    \<and> length (nodes g') = length (nodes g) + length cs
    \<and> root_nodes g' = root_nodes g @ map (\<lambda>k. length (nodes g) + k) (root_creations cs)
    \<and> (\<forall>q < length (nodes g). root_job (nodes g' ! q) = root_job (nodes g ! q))
    \<and> (\<forall>k < length cs. root_job (nodes g' ! (length (nodes g) + k)) =
          \<lparr>param_buffer = creation_params (cs ! k), function' = creation_function (cs ! k),
           node = Some (length (nodes g) + k)\<rparr>)"
  using assms
proof (induction cs arbitrary: g)
  case Nil
  then show ?case by (simp add: root_creations_Nil)
next
  case (Cons c cs)
  obtain g1 where g1: "construct fuel cs g1 = Some (Inr g')"
    and f1: "forward (nodes g1)"
    and l1: "length (nodes g1) = Suc (length (nodes g))"
    and r1: "root_nodes g1 = root_nodes g @ (if is_NewNode c then [length (nodes g)] else [])"
    and o1: "\<forall>q < length (nodes g). root_job (nodes g1 ! q) = root_job (nodes g ! q)"
    and n1: "root_job (nodes g1 ! length (nodes g)) =
      \<lparr>param_buffer = creation_params c, function' = creation_function c,
       node = Some (length (nodes g))\<rparr>"
  proof (cases c)
    case (NewNode f ps)
    show ?thesis
    proof (rule that [of "fst (new_node g f ps)"])
      show "construct fuel cs (fst (new_node g f ps)) = Some (Inr g')"
        using Cons.prems(1) NewNode by simp
    qed (use NewNode new_node_facts [OF Cons.prems(2), where f = f and ps = ps] in simp_all)
  next
    case (NewNodePreds f ps preds)
    then obtain g1 this where n: "new_node_preds fuel g f ps preds = Some (Inr (g1, this))"
      and c: "construct fuel cs g1 = Some (Inr g')"
      using Cons.prems(1) by (auto split: option.splits sum.splits)
    note s = new_node_preds_success [OF n Cons.prems(2)]
    show ?thesis
    proof (rule that [of g1])
      show "construct fuel cs g1 = Some (Inr g')" by (fact c)
      show "forward (nodes g1)" by (fact s(2))
      show "length (nodes g1) = Suc (length (nodes g))" by (fact s(3))
      show "root_nodes g1 = root_nodes g @ (if is_NewNode c then [length (nodes g)] else [])"
        using s(4) NewNodePreds by simp
      show "\<forall>q < length (nodes g). root_job (nodes g1 ! q) = root_job (nodes g ! q)"
        using s(5) by simp
      show "root_job (nodes g1 ! length (nodes g)) =
          \<lparr>param_buffer = creation_params c, function' = creation_function c,
           node = Some (length (nodes g))\<rparr>"
        using s(6) s(1) NewNodePreds by simp
    qed
  qed
  note ih = Cons.IH [OF g1 f1]
  have a: "forward (nodes g')" using ih by simp
  have b: "length (nodes g') = length (nodes g) + length (c # cs)"
    using ih l1 by simp
  have "map (\<lambda>k. length (nodes g) + k) (root_creations (c # cs)) =
      (if is_NewNode c then [length (nodes g)] else [])
        @ map (\<lambda>k. length (nodes g1) + k) (root_creations cs)"
    by (simp add: root_creations_Cons l1 comp_def)
  then have c': "root_nodes g' = root_nodes g @ map (\<lambda>k. length (nodes g) + k) (root_creations (c # cs))"
    using ih r1 by simp
  have d: "\<forall>q < length (nodes g). root_job (nodes g' ! q) = root_job (nodes g ! q)"
    using ih o1 l1 by simp
  have e: "root_job (nodes g' ! (length (nodes g) + k)) =
      \<lparr>param_buffer = creation_params ((c # cs) ! k), function' = creation_function ((c # cs) ! k),
       node = Some (length (nodes g) + k)\<rparr>" if "k < length (c # cs)" for k
  proof (cases k)
    case 0
    then show ?thesis using ih n1 l1 by simp
  next
    case (Suc j)
    then have "j < length cs" using that by simp
    then have "root_job (nodes g' ! (length (nodes g1) + j)) =
        \<lparr>param_buffer = creation_params (cs ! j), function' = creation_function (cs ! j),
         node = Some (length (nodes g1) + j)\<rparr>"
      using ih by simp
    then show ?thesis using Suc l1 by simp
  qed
  show ?case
    using a b c' d e by blast
qed

lemma forward_empty: "forward (nodes JobGraph_empty)"
  by (simp add: forward_def JobGraph_empty_def)

lemma constructed:
  assumes "construct fuel cs JobGraph_empty = Some (Inr g)"
  shows "forward (nodes g)"
    and "length (nodes g) = length cs"
    and "root_nodes g = root_creations cs"
    and "k < length cs \<Longrightarrow> root_job (nodes g ! k) =
          \<lparr>param_buffer = creation_params (cs ! k), function' = creation_function (cs ! k),
           node = Some k\<rparr>"
  using construct_inv [OF assms forward_empty]
  by (simp_all add: JobGraph_empty_def)

lemma root_creations_nth:
  assumes "i < length (root_creations cs)"
  shows "root_creations cs ! i < length cs \<and> is_NewNode (cs ! (root_creations cs ! i))"
proof -
  have "root_creations cs ! i \<in> set (root_creations cs)"
    using assms by simp
  then show ?thesis
    by (simp add: root_creations_def)
qed

subsection \<open>The benchmark graph of Main.cpp\<close>

lemmas graph_eval =
  new_node_def new_node_preds_def JobGraph_empty_def JobGraphNode_new_def memcpy_def
  add_successor_def node_at_def Let_def eval_nat_numeral

lemma Main_graph_two_constructed:
  "construct 2 (take 2 Main_calls) JobGraph_empty = Some (Inr Main_graph_two)"
  by (simp add: Main_calls_def Main_graph_two_def graph_eval)

lemma Main_graph_constructed:
  "construct 3 Main_calls JobGraph_empty = Some (Inr Main_graph)"
  by (simp add: Main_calls_def Main_graph_def graph_eval)

lemma Main_graph_third_call:
  "new_node_preds 3 Main_graph_two parallel_sum [] [1] = Some (Inr (Main_graph, 2))"
  by (simp add: Main_graph_two_def Main_graph_def graph_eval)

lemma Main_graph_two_edge:
  "(0, 1) \<in> (edges (nodes Main_graph_two))\<^sup>+"
  by (rule r_into_trancl) (simp add: edges_def Main_graph_two_def)

subsection \<open>JobGraph::get_root_job\<close>

text \<open>
  Claim C8. Let the graph \<open>g\<close> be built by the calls \<open>cs\<close> of \<^verbatim>\<open>new_node\<close>, of which the
  \<open>k\<close>-th creates the node \<open>k\<close>; \<open>root_creations cs\<close> lists, in creation order, the nodes
  created by the form without predecessors. For every index \<open>i\<close>, \<^verbatim>\<open>get_root_job(i)\<close> is
  the pointer to the root job of the \<open>i\<close>-th of these nodes when \<open>i\<close> is less than their
  number, and null otherwise; the node it points into was created by the form without
  predecessors and holds the function and the parameters of that call.
\<close>

theorem JobGraph_get_root_job_spec:
  assumes "construct fuel cs JobGraph_empty = Some (Inr g)"
  shows "JobGraph_get_root_job g i =
      (if unat i < length (root_creations cs) then Some (RootJob (root_creations cs ! unat i))
       else None)
    \<and> (unat i < length (root_creations cs) \<longrightarrow>
        root_creations cs ! unat i < length cs
        \<and> is_NewNode (cs ! (root_creations cs ! unat i))
        \<and> root_job (nodes g ! (root_creations cs ! unat i)) =
            \<lparr>param_buffer = creation_params (cs ! (root_creations cs ! unat i)),
             function' = creation_function (cs ! (root_creations cs ! unat i)),
             node = Some (root_creations cs ! unat i)\<rparr>)"
proof -
  note c = constructed [OF assms]
  have "JobGraph_get_root_job g i =
      (if unat i < length (root_creations cs) then Some (RootJob (root_creations cs ! unat i))
       else None)"
    by (simp add: JobGraph_get_root_job_def JobGraphNode_get_root_job_def c(3))
  moreover have "root_creations cs ! unat i < length cs
        \<and> is_NewNode (cs ! (root_creations cs ! unat i))
        \<and> root_job (nodes g ! (root_creations cs ! unat i)) =
            \<lparr>param_buffer = creation_params (cs ! (root_creations cs ! unat i)),
             function' = creation_function (cs ! (root_creations cs ! unat i)),
             node = Some (root_creations cs ! unat i)\<rparr>"
    if "unat i < length (root_creations cs)"
    using root_creations_nth [OF that] c(4) by simp
  ultimately show ?thesis
    by blast
qed

lemma example_graph:
  "construct (Suc (Suc (Suc 0))) [NewNode 10 [], NewNodePreds 20 [] [0], NewNode 30 []] JobGraph_empty
  = Some (Inr \<lparr>nodes =
        [\<lparr>root_job = \<lparr>param_buffer = [], function' = 10, node = Some 0\<rparr>,
           initial_predecessor_amount = 0, predecessor_amount = 0, unfinished_amount = 1,
           successors = [1]\<rparr>,
         \<lparr>root_job = \<lparr>param_buffer = [], function' = 20, node = Some 1\<rparr>,
            initial_predecessor_amount = 1, predecessor_amount = 1, unfinished_amount = 1,
            successors = []\<rparr>,
         \<lparr>root_job = \<lparr>param_buffer = [], function' = 30, node = Some 2\<rparr>,
            initial_predecessor_amount = 0, predecessor_amount = 0, unfinished_amount = 1,
            successors = []\<rparr>],
      root_nodes = [0, 2]\<rparr>)"
  by (simp add: new_node_def new_node_preds_def JobGraph_empty_def JobGraphNode_new_def memcpy_def
      add_successor_def node_at_def Let_def)

lemma example_root_creations:
  "root_creations [NewNode 10 [], NewNodePreds 20 [] [0], NewNode 30 []] = [0, 2]"
  by (simp add: root_creations_Cons root_creations_Nil)

theorem JobGraph_get_root_job_spec_witness:
  "JobGraph_get_root_job
     \<lparr>nodes =
        [\<lparr>root_job = \<lparr>param_buffer = [], function' = 10, node = Some 0\<rparr>,
           initial_predecessor_amount = 0, predecessor_amount = 0, unfinished_amount = 1,
           successors = [1]\<rparr>,
         \<lparr>root_job = \<lparr>param_buffer = [], function' = 20, node = Some 1\<rparr>,
            initial_predecessor_amount = 1, predecessor_amount = 1, unfinished_amount = 1,
            successors = []\<rparr>,
         \<lparr>root_job = \<lparr>param_buffer = [], function' = 30, node = Some 2\<rparr>,
            initial_predecessor_amount = 0, predecessor_amount = 0, unfinished_amount = 1,
            successors = []\<rparr>],
      root_nodes = [0, 2]\<rparr> 1 = Some (RootJob 2)
   \<and> JobGraph_get_root_job
     \<lparr>nodes =
        [\<lparr>root_job = \<lparr>param_buffer = [], function' = 10, node = Some 0\<rparr>,
           initial_predecessor_amount = 0, predecessor_amount = 0, unfinished_amount = 1,
           successors = [1]\<rparr>,
         \<lparr>root_job = \<lparr>param_buffer = [], function' = 20, node = Some 1\<rparr>,
            initial_predecessor_amount = 1, predecessor_amount = 1, unfinished_amount = 1,
            successors = []\<rparr>,
         \<lparr>root_job = \<lparr>param_buffer = [], function' = 30, node = Some 2\<rparr>,
            initial_predecessor_amount = 0, predecessor_amount = 0, unfinished_amount = 1,
            successors = []\<rparr>],
      root_nodes = [0, 2]\<rparr> 2 = None"
  using JobGraph_get_root_job_spec [OF example_graph, of 1, unfolded example_root_creations]
    JobGraph_get_root_job_spec [OF example_graph, of 2, unfolded example_root_creations]
  by simp

subsection \<open>JobGraph::new_node with predecessors\<close>

lemma new_node_preds_eq:
  "new_node_preds fuel g f ps preds =
    (case link_predecessors fuel preds (length (nodes g)) preds
            (nodes g @ [JobGraphNode_new f ps (length (nodes g))]) of
       None \<Rightarrow> None
     | Some (Inl e) \<Rightarrow> Some (Inl e)
     | Some (Inr ns1) \<Rightarrow> Some (Inr (g\<lparr>nodes := ns1\<rparr>, length (nodes g))))"
  by (simp add: new_node_preds_def Let_def)

text \<open>
  Claim C5. Let \<open>g\<close> be a graph built by calls of \<^verbatim>\<open>new_node\<close>, and \<open>A\<close> and \<open>B\<close> distinct
  nodes of it such that \<open>B\<close> is reachable from \<open>A\<close> along successor edges. With fuel for the
  ancestor search beyond the number of nodes, creating a node with the predecessor array
  \<open>{A, B}\<close> (in either order) returns what creating it with \<open>{B}\<close> returns, the same graph
  and the same node: the successors of \<open>A\<close> are unchanged, the successors of \<open>B\<close> gain the
  new node once, at the end, and \<^verbatim>\<open>initial_predecessor_amount\<close> and \<^verbatim>\<open>predecessor_amount\<close> of
  the new node are 1.
\<close>

theorem new_node_preds_redundant_spec:
  assumes "construct fuel0 cs JobGraph_empty = Some (Inr g)"
    and "A < length (nodes g)" and "B < length (nodes g)" and "A \<noteq> B"
    and "(A, B) \<in> (edges (nodes g))\<^sup>+"
    and "length (nodes g) < fuel"
  shows "new_node_preds fuel g f ps [A, B] = new_node_preds fuel g f ps [B]
    \<and> new_node_preds fuel g f ps [B, A] = new_node_preds fuel g f ps [B]
    \<and> (\<exists>g'. new_node_preds fuel g f ps [B] = Some (Inr (g', length (nodes g)))
        \<and> successors (nodes g' ! A) = successors (nodes g ! A)
        \<and> successors (nodes g' ! B) = successors (nodes g ! B) @ [length (nodes g)]
        \<and> initial_predecessor_amount (nodes g' ! length (nodes g)) = 1
        \<and> predecessor_amount (nodes g' ! length (nodes g)) = 1)"
proof -
  let ?n = "length (nodes g)"
  let ?ns = "nodes g @ [JobGraphNode_new f ps ?n]"
  have fw: "forward ?ns"
    using constructed(1) [OF assms(1)] by (rule forward_append_new)
  have ed: "edges ?ns = edges (nodes g)"
    by (rule edges_append_new)
  have AB: "(A, B) \<in> (edges ?ns)\<^sup>+"
    using assms(5) ed by simp
  have lt: "A < B"
    using reach_forward [OF fw AB] by simp
  have nBA: "(B, A) \<notin> (edges ns)\<^sup>+" if "forward ns" for ns
    using reach_forward [OF that, of B A] lt by auto
  have len: "length ?ns \<le> fuel"
    using assms(6) by simp
  have A: "A < length ?ns" and B: "B < length ?ns" and Bt: "B < ?n" and At: "A < ?n"
    and t: "?n < length ?ns"
    using assms(2,3) by simp_all
  have rA: "is_redundant fuel ?ns A [A, B] = Some (Inr True)"
    using is_redundant_complete [OF fw A, of fuel "[A, B]"] len AB assms(4) by auto
  have rB: "is_redundant fuel ?ns B [A, B] = Some (Inr False)"
    using is_redundant_complete [OF fw B, of fuel "[A, B]"] len nBA [OF fw] by auto
  have rB1: "is_redundant fuel ?ns B [B] = Some (Inr False)"
    by simp
  have rB2: "is_redundant fuel ?ns B [B, A] = Some (Inr False)"
    using is_redundant_complete [OF fw B, of fuel "[B, A]"] len nBA [OF fw] by auto
  obtain ns1 where a: "add_successor B ?n ?ns = Inr ns1"
    using add_successor_eq [OF Bt t] by blast
  have e1: "ns1 = ?ns[B := (?ns ! B)\<lparr>successors := successors (?ns ! B) @ [?n]\<rparr>,
      ?n := (?ns ! ?n)\<lparr>initial_predecessor_amount := initial_predecessor_amount (?ns ! ?n) + 1,
                              predecessor_amount := initial_predecessor_amount (?ns ! ?n) + 1\<rparr>]"
    using a add_successor_eq [OF Bt t] by simp
  have f1: "forward ns1" and l1: "length ns1 = length ?ns"
    using add_successor_forward [OF fw Bt t a] by simp_all
  have "edges ?ns \<subseteq> edges ns1"
    using Bt t a by (rule edges_add_successor_mono)
  then have AB1: "(A, B) \<in> (edges ns1)\<^sup>+"
    using AB trancl_mono by blast
  have rA1: "is_redundant fuel ns1 A [B, A] = Some (Inr True)"
    using is_redundant_complete [OF f1, of A fuel "[B, A]"] len AB1 assms(4) A l1 by auto
  have k1: "link_predecessors fuel [A, B] ?n [A, B] ?ns = Some (Inr ns1)"
    using rA rB a At Bt by simp
  have k2: "link_predecessors fuel [B] ?n [B] ?ns = Some (Inr ns1)"
    using rB1 a Bt by simp
  have k3: "link_predecessors fuel [B, A] ?n [B, A] ?ns = Some (Inr ns1)"
    using rB2 rA1 a At Bt by simp
  have n1: "new_node_preds fuel g f ps [A, B] = Some (Inr (g\<lparr>nodes := ns1\<rparr>, ?n))"
    and n2: "new_node_preds fuel g f ps [B] = Some (Inr (g\<lparr>nodes := ns1\<rparr>, ?n))"
    and n3: "new_node_preds fuel g f ps [B, A] = Some (Inr (g\<lparr>nodes := ns1\<rparr>, ?n))"
    by (simp_all only: new_node_preds_eq k1 k2 k3 option.case sum.case)
  have sA: "successors (ns1 ! A) = successors (nodes g ! A)"
    using e1 assms(2,4) by (simp add: nth_append)
  have sB: "successors (ns1 ! B) = successors (nodes g ! B) @ [?n]"
    using e1 assms(3) by (simp add: nth_append)
  have i: "initial_predecessor_amount (ns1 ! ?n) = 1" "predecessor_amount (ns1 ! ?n) = 1"
    using e1 by simp_all
  show ?thesis
    using n1 n2 n3 sA sB i by simp
qed

theorem new_node_preds_redundant_spec_witness:
  "new_node_preds 3 Main_graph_two parallel_sum [] [0, 1] = Some (Inr (Main_graph, 2))
   \<and> new_node_preds 3 Main_graph_two parallel_sum [] [1] = Some (Inr (Main_graph, 2))
   \<and> successors (nodes Main_graph ! 0) = successors (nodes Main_graph_two ! 0)
   \<and> successors (nodes Main_graph ! 1) = successors (nodes Main_graph_two ! 1) @ [2]
   \<and> initial_predecessor_amount (nodes Main_graph ! 2) = 1
   \<and> predecessor_amount (nodes Main_graph ! 2) = 1"
proof -
  have l: "length (nodes Main_graph_two) = 2"
    by (simp add: Main_graph_two_def)
  have "new_node_preds 3 Main_graph_two parallel_sum [] [0, 1]
      = new_node_preds 3 Main_graph_two parallel_sum [] [1]
    \<and> new_node_preds 3 Main_graph_two parallel_sum [] [1, 0]
      = new_node_preds 3 Main_graph_two parallel_sum [] [1]
    \<and> (\<exists>g'. new_node_preds 3 Main_graph_two parallel_sum [] [1]
          = Some (Inr (g', length (nodes Main_graph_two)))
        \<and> successors (nodes g' ! 0) = successors (nodes Main_graph_two ! 0)
        \<and> successors (nodes g' ! 1) = successors (nodes Main_graph_two ! 1) @ [length (nodes Main_graph_two)]
        \<and> initial_predecessor_amount (nodes g' ! length (nodes Main_graph_two)) = 1
        \<and> predecessor_amount (nodes g' ! length (nodes Main_graph_two)) = 1)"
    by (rule new_node_preds_redundant_spec [OF Main_graph_two_constructed _ _ _ Main_graph_two_edge])
      (simp_all add: l)
  then show ?thesis
    unfolding l Main_graph_third_call by simp
qed

lemma word32_of_nat_pos:
  assumes "1 \<le> k" and "k < 4294967296"
  shows "1 \<le> (of_nat k :: 32 word)"
proof -
  have "unat (of_nat k :: 32 word) = k"
    using assms(2) by (simp add: unat_of_nat)
  then show ?thesis
    using assms(1) by (simp add: word_le_nat_alt)
qed

text \<open>
  Claim C9. Let \<open>g\<close> be a graph built by the calls \<open>cs\<close> of \<^verbatim>\<open>new_node\<close> (its edges point
  forward, so it is acyclic). \<^verbatim>\<open>get_root_job\<close> never returns the root job of a node that
  the form with predecessors created. Creating a node with a non-empty array of
  predecessors, all nodes of \<open>g\<close>, with fuel for the ancestor search beyond the number of
  nodes, returns a graph in which some listed predecessor, from which no other listed
  predecessor is reachable, has the new node among its successors; the new node has
  \<^verbatim>\<open>initial_predecessor_amount\<close> \<open>\<ge> 1\<close>, the list of root nodes is unchanged, and
  \<^verbatim>\<open>get_root_job\<close> does not return the new node's root job.

  The counter \<^verbatim>\<open>initial_predecessor_amount\<close> is a \<^verbatim>\<open>uint32_t\<close> that is incremented once for
  each entry of the array that the filter keeps, so the statement is about the calls in
  which the filter keeps fewer than \<open>2\<^sup>3\<^sup>2\<close> entries; every array of fewer than \<open>2\<^sup>3\<^sup>2\<close>
  entries is among them. A call outside this range keeps \<open>2\<^sup>3\<^sup>2\<close> entries of an array that
  long or longer, and before the filter keeps an entry its inner loop has visited every
  entry of the array: such a call takes at least \<open>2\<^sup>6\<^sup>4\<close> passes through the inner loop.
\<close>

theorem new_node_preds_not_root_spec:
  assumes "construct fuel0 cs JobGraph_empty = Some (Inr g)"
    and "preds \<noteq> []" and "\<forall>p \<in> set preds. p < length (nodes g)"
    and "length (filter (\<lambda>p. \<forall>c \<in> set preds. c \<noteq> p \<longrightarrow> (p, c) \<notin> (edges (nodes g))\<^sup>+) preds)
      < 4294967296"
    and "length (nodes g) < fuel"
  shows "(\<forall>k < length cs. \<not> is_NewNode (cs ! k) \<longrightarrow>
        (\<forall>i. JobGraph_get_root_job g i \<noteq> Some (RootJob k)))
    \<and> (\<exists>g'. new_node_preds fuel g f ps preds = Some (Inr (g', length (nodes g)))
        \<and> (\<exists>p \<in> set preds.
              (\<forall>c \<in> set preds. c \<noteq> p \<longrightarrow> (p, c) \<notin> (edges (nodes g))\<^sup>+)
              \<and> length (nodes g) \<in> set (successors (nodes g' ! p)))
        \<and> 1 \<le> initial_predecessor_amount (nodes g' ! length (nodes g))
        \<and> root_nodes g' = root_nodes g
        \<and> (\<forall>i. JobGraph_get_root_job g' i \<noteq> Some (RootJob (length (nodes g)))))"
proof (rule conjI)
  note c = constructed [OF assms(1)]
  show "\<forall>k < length cs. \<not> is_NewNode (cs ! k) \<longrightarrow>
      (\<forall>i. JobGraph_get_root_job g i \<noteq> Some (RootJob k))"
  proof (intro allI impI notI)
    fix k i
    assume "\<not> is_NewNode (cs ! k)" and r: "JobGraph_get_root_job g i = Some (RootJob k)"
    have "unat i < length (root_creations cs)" and "k = root_creations cs ! unat i"
      using r c(3)
      by (auto simp add: JobGraph_get_root_job_def JobGraphNode_get_root_job_def split: if_splits)
    then have "is_NewNode (cs ! k)"
      using root_creations_nth [of "unat i" cs] by simp
    then show False
      using \<open>\<not> is_NewNode (cs ! k)\<close> by simp
  qed
  let ?n = "length (nodes g)"
  let ?ns = "nodes g @ [JobGraphNode_new f ps ?n]"
  let ?S = "\<lambda>p. \<forall>c \<in> set preds. c \<noteq> p \<longrightarrow> (p, c) \<notin> (edges (nodes g))\<^sup>+"
  have fw: "forward ?ns"
    using c(1) by (rule forward_append_new)
  have t: "?n < length ?ns"
    by simp
  have fu: "length ?ns \<le> fuel"
    using assms(5) by simp
  have E: "edges (nodes g) \<subseteq> edges ?ns"
    by (simp add: edges_append_new)
  have "\<exists>ns1. link_predecessors fuel preds ?n preds ?ns = Some (Inr ns1)"
    using fw t assms(5,3) by (intro link_predecessors_total) auto
  then obtain ns1 where l: "link_predecessors fuel preds ?n preds ?ns = Some (Inr ns1)"
    by blast
  have n: "new_node_preds fuel g f ps preds = Some (Inr (g\<lparr>nodes := ns1\<rparr>, ?n))"
    by (simp only: new_node_preds_eq l option.case sum.case)
  obtain k where k: "k \<le> length (filter ?S preds)"
    "initial_predecessor_amount (ns1 ! ?n) = initial_predecessor_amount (?ns ! ?n) + of_nat k"
    "\<forall>m \<in> set preds. (\<forall>c \<in> set preds. c \<le> m) \<longrightarrow> 1 \<le> k \<and> ?n \<in> set (successors (ns1 ! m))"
    using link_predecessors_survivors [OF l fw t fu E] by blast
  define m where "m = Max (set preds)"
  have m: "m \<in> set preds" and mx: "\<forall>c \<in> set preds. c \<le> m"
    using assms(2) by (simp_all add: m_def)
  have k1: "1 \<le> k" and sm: "?n \<in> set (successors (ns1 ! m))"
    using k(3) m mx by blast+
  have "(m, c) \<notin> (edges (nodes g))\<^sup>+" if "c \<in> set preds" for c
  proof
    assume "(m, c) \<in> (edges (nodes g))\<^sup>+"
    then have "m < c"
      using reach_forward [OF c(1)] by blast
    then show False
      using mx that by auto
  qed
  then have s: "\<exists>p \<in> set preds.
      (\<forall>c \<in> set preds. c \<noteq> p \<longrightarrow> (p, c) \<notin> (edges (nodes g))\<^sup>+)
      \<and> ?n \<in> set (successors (ns1 ! p))"
    using m sm by blast
  have "initial_predecessor_amount (ns1 ! ?n) = of_nat k"
    using k(2) by simp
  moreover have "1 \<le> (of_nat k :: 32 word)"
    using k1 k(1) assms(4) by (intro word32_of_nat_pos) auto
  ultimately have i: "1 \<le> initial_predecessor_amount (ns1 ! ?n)"
    by simp
  have g: "JobGraph_get_root_job (g\<lparr>nodes := ns1\<rparr>) i \<noteq> Some (RootJob ?n)" for i
  proof
    assume r: "JobGraph_get_root_job (g\<lparr>nodes := ns1\<rparr>) i = Some (RootJob ?n)"
    have "unat i < length (root_creations cs)" and "?n = root_creations cs ! unat i"
      using r c(3)
      by (auto simp add: JobGraph_get_root_job_def JobGraphNode_get_root_job_def split: if_splits)
    then have "?n < length cs"
      using root_creations_nth [of "unat i" cs] by simp
    then show False
      using c(2) by simp
  qed
  show "\<exists>g'. new_node_preds fuel g f ps preds = Some (Inr (g', ?n))
      \<and> (\<exists>p \<in> set preds.
            (\<forall>c \<in> set preds. c \<noteq> p \<longrightarrow> (p, c) \<notin> (edges (nodes g))\<^sup>+)
            \<and> ?n \<in> set (successors (nodes g' ! p)))
      \<and> 1 \<le> initial_predecessor_amount (nodes g' ! ?n)
      \<and> root_nodes g' = root_nodes g
      \<and> (\<forall>i. JobGraph_get_root_job g' i \<noteq> Some (RootJob ?n))"
    using n s i g by (intro exI [of _ "g\<lparr>nodes := ns1\<rparr>"]) simp
qed

theorem new_node_preds_not_root_spec_witness:
  "new_node_preds 3 Main_graph_two parallel_sum [] [0, 1] = Some (Inr (Main_graph, 2))
   \<and> 2 \<in> set (successors (nodes Main_graph ! 1))
   \<and> 1 \<le> initial_predecessor_amount (nodes Main_graph ! 2)
   \<and> root_nodes Main_graph = root_nodes Main_graph_two
   \<and> JobGraph_get_root_job Main_graph 0 = Some (RootJob 0)
   \<and> JobGraph_get_root_job Main_graph 1 = None"
proof -
  have l: "length (nodes Main_graph_two) = 2"
    by (simp add: Main_graph_two_def)
  have e: "new_node_preds 3 Main_graph_two parallel_sum [] [0, 1] = Some (Inr (Main_graph, 2))"
    by (simp add: Main_graph_two_def Main_graph_def graph_eval)
  have b: "length (filter (\<lambda>p. \<forall>c \<in> set [0, 1]. c \<noteq> p \<longrightarrow>
      (p, c) \<notin> (edges (nodes Main_graph_two))\<^sup>+) [0, 1]) < 4294967296"
    by (rule le_less_trans [OF length_filter_le]) simp
  have "(\<forall>k < length (take 2 Main_calls). \<not> is_NewNode (take 2 Main_calls ! k) \<longrightarrow>
        (\<forall>i. JobGraph_get_root_job Main_graph_two i \<noteq> Some (RootJob k)))
    \<and> (\<exists>g'. new_node_preds 3 Main_graph_two parallel_sum [] [0, 1]
          = Some (Inr (g', length (nodes Main_graph_two)))
        \<and> (\<exists>p \<in> set [0, 1].
              (\<forall>c \<in> set [0, 1]. c \<noteq> p \<longrightarrow> (p, c) \<notin> (edges (nodes Main_graph_two))\<^sup>+)
              \<and> length (nodes Main_graph_two) \<in> set (successors (nodes g' ! p)))
        \<and> 1 \<le> initial_predecessor_amount (nodes g' ! length (nodes Main_graph_two))
        \<and> root_nodes g' = root_nodes Main_graph_two
        \<and> (\<forall>i. JobGraph_get_root_job g' i \<noteq> Some (RootJob (length (nodes Main_graph_two)))))"
    by (rule new_node_preds_not_root_spec [OF Main_graph_two_constructed _ _ b]) (simp_all add: l)
  then have "1 \<le> initial_predecessor_amount (nodes Main_graph ! 2)
      \<and> root_nodes Main_graph = root_nodes Main_graph_two"
    unfolding l e by simp
  moreover have "2 \<in> set (successors (nodes Main_graph ! 1))"
    and "JobGraph_get_root_job Main_graph 0 = Some (RootJob 0)"
    and "JobGraph_get_root_job Main_graph 1 = None"
    by (simp_all add: Main_graph_def JobGraph_get_root_job_def JobGraphNode_get_root_job_def)
  ultimately show ?thesis
    using e by simp
qed


lemma is_redundant_replicate:
  "is_redundant fuel ns p (replicate k p) = Some (Inr False)"
  by (induction k) simp_all

lemma link_predecessors_replicate:
  assumes "predecessor_amount n1 = initial_predecessor_amount n1"
  shows "link_predecessors fuel (replicate N 0) (Suc 0) (replicate k 0) [n0, n1] =
    Some (Inr [n0\<lparr>successors := successors n0 @ replicate k (Suc 0)\<rparr>,
               n1\<lparr>initial_predecessor_amount := initial_predecessor_amount n1 + of_nat k,
                  predecessor_amount := initial_predecessor_amount n1 + of_nat k\<rparr>])"
  using assms
proof (induction k arbitrary: n0 n1)
  case 0
  then show ?case by simp
next
  case (Suc k)
  let ?n0 = "n0\<lparr>successors := successors n0 @ [Suc 0]\<rparr>"
  let ?n1 = "n1\<lparr>initial_predecessor_amount := initial_predecessor_amount n1 + 1,
                 predecessor_amount := initial_predecessor_amount n1 + 1\<rparr>"
  have a: "add_successor 0 (Suc 0) [n0, n1] = Inr [?n0, ?n1]"
    by (simp add: add_successor_def node_at_def Let_def)
  have "link_predecessors fuel (replicate N 0) (Suc 0) (replicate k 0) [?n0, ?n1] =
    Some (Inr [?n0\<lparr>successors := successors ?n0 @ replicate k (Suc 0)\<rparr>,
               ?n1\<lparr>initial_predecessor_amount := initial_predecessor_amount ?n1 + of_nat k,
                   predecessor_amount := initial_predecessor_amount ?n1 + of_nat k\<rparr>])"
    by (rule Suc.IH) simp
  then show ?case
    by (simp add: is_redundant_replicate a replicate_append_same add.assoc)
qed

text \<open>
  The bound on the entries that the filter keeps is what holds the counter above 0. For an
  array of \<open>2\<^sup>3\<^sup>2\<close> entries that all are the only node of a graph, no entry is redundant,
  since an entry is compared with the other entries only when they are different pointers,
  and the counter, incremented \<open>2\<^sup>3\<^sup>2\<close> times, is back at 0. The list of root nodes is
  unchanged there too.
\<close>

lemma new_node_preds_count_wraps:
  "new_node_preds 2 (fst (new_node JobGraph_empty 10 [])) 20 [] (replicate 4294967296 0) =
    Some (Inr (\<lparr>nodes =
        [\<lparr>root_job = \<lparr>param_buffer = [], function' = 10, node = Some 0\<rparr>,
           initial_predecessor_amount = 0, predecessor_amount = 0, unfinished_amount = 1,
           successors = replicate 4294967296 1\<rparr>,
         \<lparr>root_job = \<lparr>param_buffer = [], function' = 20, node = Some 1\<rparr>,
            initial_predecessor_amount = 0, predecessor_amount = 0, unfinished_amount = 1,
            successors = []\<rparr>],
      root_nodes = [0]\<rparr>, 1))"
proof -
  let ?n0 = "JobGraphNode_new 10 [] 0" and ?n1 = "JobGraphNode_new 20 [] (Suc 0)"
  have "link_predecessors 2 (replicate 4294967296 0) (Suc 0) (replicate 4294967296 0) [?n0, ?n1] =
    Some (Inr [?n0\<lparr>successors := successors ?n0 @ replicate 4294967296 (Suc 0)\<rparr>,
               ?n1\<lparr>initial_predecessor_amount := initial_predecessor_amount ?n1 + of_nat 4294967296,
                   predecessor_amount := initial_predecessor_amount ?n1 + of_nat 4294967296\<rparr>])"
    by (rule link_predecessors_replicate) simp
  then show ?thesis
    by (simp add: new_node_preds_eq new_node_def JobGraph_empty_def JobGraphNode_new_def memcpy_def)
qed

subsection \<open>JobGraphNode::job_completed\<close>

lemma JobQueue_push_True:
  assumes "JobQueue_push q job = Inr (True, q1)"
  shows "q1 = q\<lparr>ring_buffer := (ring_buffer q)(unat (bottom q) mod 4096 := job),
                 bottom := bottom q + 1\<rparr>"
proof -
  have b: "sint (bottom q) < 2147483647"
    using assms by (cases "sint (bottom q) < 2147483647") (simp_all add: JobQueue_push_assert)
  show ?thesis
    using assms b
    by (cases "bottom q - top' q = 4096") (simp_all add: JobQueue_push_full JobQueue_push_room)
qed

lemma fire_successors_Cons_cases:
  assumes "fire_successors (s # ss) ns q = Inr (ns', q')"
  obtains (pushed) q1 where "s < length ns" and "predecessor_amount (ns ! s) = 1"
      and "JobQueue_push q (Some (RootJob s)) = Inr (True, q1)"
      and "fire_successors ss (ns[s := (ns ! s)\<lparr>predecessor_amount := predecessor_amount (ns ! s) - 1\<rparr>]) q1
        = Inr (ns', q')"
    | (waiting) "s < length ns" and "predecessor_amount (ns ! s) \<noteq> 1"
      and "0 < predecessor_amount (ns ! s)"
      and "fire_successors ss (ns[s := (ns ! s)\<lparr>predecessor_amount := predecessor_amount (ns ! s) - 1\<rparr>]) q
        = Inr (ns', q')"
  using assms
  by (auto simp add: node_at_def Let_def split: if_splits sum.splits)

lemma predecessor_amount_update:
  assumes "s < length ns"
  shows "(\<lambda>m. predecessor_amount (ns[s := (ns ! s)\<lparr>predecessor_amount := v\<rparr>] ! m))
    = (\<lambda>m. predecessor_amount (ns ! m))(s := v)"
proof
  fix m
  show "predecessor_amount (ns[s := (ns ! s)\<lparr>predecessor_amount := v\<rparr>] ! m)
      = ((\<lambda>m. predecessor_amount (ns ! m))(s := v)) m"
    using assms by (cases "m = s") simp_all
qed

lemma fire_successors_spec:
  assumes "fire_successors ss ns q = Inr (ns', q')"
  shows "length ns' = length ns
    \<and> (\<forall>m < length ns. ns' ! m =
          (ns ! m)\<lparr>predecessor_amount := predecessor_amount (ns ! m) - of_nat (count_list ss m)\<rparr>)
    \<and> q' = push_all q (map (\<lambda>s. Some (RootJob s))
          (fired_successors (\<lambda>m. predecessor_amount (ns ! m)) ss))"
  using assms
proof (induction ss arbitrary: ns q)
  case Nil
  then show ?case by simp
next
  case (Cons s ss)
  let ?ns1 = "ns[s := (ns ! s)\<lparr>predecessor_amount := predecessor_amount (ns ! s) - 1\<rparr>]"
  have step: "length ns' = length ns
    \<and> (\<forall>m < length ns. ns' ! m =
          (ns ! m)\<lparr>predecessor_amount := predecessor_amount (ns ! m) - of_nat (count_list (s # ss) m)\<rparr>)"
    if s: "s < length ns" and ih: "length ns' = length ?ns1
      \<and> (\<forall>m < length ?ns1. ns' ! m =
          (?ns1 ! m)\<lparr>predecessor_amount := predecessor_amount (?ns1 ! m) - of_nat (count_list ss m)\<rparr>)"
  proof (intro conjI allI impI)
    show "length ns' = length ns" using ih by simp
    fix m
    assume m: "m < length ns"
    show "ns' ! m =
        (ns ! m)\<lparr>predecessor_amount := predecessor_amount (ns ! m) - of_nat (count_list (s # ss) m)\<rparr>"
    proof (cases "m = s")
      case True
      then show ?thesis using ih s by (simp add: algebra_simps)
    next
      case False
      then show ?thesis using ih m by simp
    qed
  qed
  from Cons.prems show ?case
  proof (cases rule: fire_successors_Cons_cases)
    case (pushed q1)
    note ih = Cons.IH [OF pushed(4)]
    have q1: "q1 = q\<lparr>ring_buffer := (ring_buffer q)(unat (bottom q) mod 4096 := Some (RootJob s)),
                 bottom := bottom q + 1\<rparr>"
      using pushed(3) by (rule JobQueue_push_True)
    have "q' = push_all q (map (\<lambda>s. Some (RootJob s))
          (fired_successors (\<lambda>m. predecessor_amount (ns ! m)) (s # ss)))"
      using ih pushed(1,2) q1 by (simp add: predecessor_amount_update)
    then show ?thesis
      using step [OF pushed(1)] ih by simp
  next
    case waiting
    note ih = Cons.IH [OF waiting(4)]
    have "q' = push_all q (map (\<lambda>s. Some (RootJob s))
          (fired_successors (\<lambda>m. predecessor_amount (ns ! m)) (s # ss)))"
      using ih waiting(1,2) by (simp add: predecessor_amount_update)
    then show ?thesis
      using step [OF waiting(1)] ih by simp
  qed
qed

lemma fired_successors_distinct:
  "distinct ss \<Longrightarrow> fired_successors c ss = filter (\<lambda>s. c s = 1) ss"
proof (induction ss arbitrary: c)
  case Nil
  then show ?case by simp
next
  case (Cons s ss)
  have "filter (\<lambda>x. (c(s := c s - 1)) x = 1) ss = filter (\<lambda>x. c x = 1) ss"
    using Cons.prems by (intro filter_cong) auto
  then show ?case
    using Cons by simp
qed

lemma job_completed_cases:
  assumes "job_completed this ns q = Inr (ns', q')"
  obtains (more) "this < length ns" and "1 < unfinished_amount (ns ! this)"
      and "ns' = ns[this := (ns ! this)\<lparr>unfinished_amount := unfinished_amount (ns ! this) - 1\<rparr>]"
      and "q' = q"
    | (last) ns2 where "this < length ns" and "unfinished_amount (ns ! this) = 1"
      and "fire_successors (successors (ns ! this))
            (ns[this := (ns ! this)\<lparr>unfinished_amount := 0\<rparr>]) q = Inr (ns2, q')"
      and "this < length ns2"
      and "ns' = ns2[this := (ns2 ! this)\<lparr>unfinished_amount := 1,
          predecessor_amount := initial_predecessor_amount (ns2 ! this)\<rparr>]"
proof -
  have t: "this < length ns"
    using assms by (auto simp add: job_completed_def node_at_def split: if_splits)
  have p: "0 < unfinished_amount (ns ! this)"
    using assms t by (auto simp add: job_completed_def node_at_def Let_def split: if_splits)
  show thesis
  proof (cases "1 < unfinished_amount (ns ! this)")
    case True
    then show ?thesis
      using assms t p by (intro more) (auto simp add: job_completed_def node_at_def Let_def)
  next
    case False
    then have "unat (unfinished_amount (ns ! this)) = unat (1 :: 32 word)"
      using p by (simp add: word_less_nat_alt)
    then have one: "unfinished_amount (ns ! this) = 1"
      by (simp only: word_unat_eq_iff)
    then obtain ns2 where "fire_successors (successors (ns ! this))
            (ns[this := (ns ! this)\<lparr>unfinished_amount := 0\<rparr>]) q = Inr (ns2, q')"
      and "this < length ns2"
      and "ns' = ns2[this := (ns2 ! this)\<lparr>unfinished_amount := 1,
          predecessor_amount := initial_predecessor_amount (ns2 ! this)\<rparr>]"
      using assms t
      by (auto simp add: job_completed_def node_at_def Let_def split: if_splits sum.splits)
    then show ?thesis
      using t one by (intro last)
  qed
qed

text \<open>
  Claim C4, as amended. Consider a call of \<^verbatim>\<open>job_completed\<close> in which no assertion fails:
  the pre-decrement values of the counters are positive and every push succeeds. The call
  decrements \<^verbatim>\<open>unfinished_amount\<close> by one. If the value before was greater than 1, nothing
  else changes: the nodes are as before but for this counter, and the deque is as
  before. If the value before was 1 (the decrement makes it 0), then, going through the
  successors in list order, each successor has its \<^verbatim>\<open>predecessor_amount\<close> decremented by
  one, so a node loses as much as it occurs in the list, and nothing else of it changes;
  the root jobs of the successors whose value just before their decrement was 1 are
  pushed onto the deque of the caller, in list order (for a list without repetitions,
  those whose value before the call was 1); at the end \<^verbatim>\<open>unfinished_amount\<close> of the node is
  1 and its \<^verbatim>\<open>predecessor_amount\<close> is its \<^verbatim>\<open>initial_predecessor_amount\<close>.
\<close>

theorem job_completed_spec:
  assumes "job_completed this ns q = Inr (ns', q')"
  shows "this < length ns \<and> length ns' = length ns \<and> 0 < unfinished_amount (ns ! this)
    \<and> (1 < unfinished_amount (ns ! this) \<longrightarrow>
        ns' = ns[this := (ns ! this)\<lparr>unfinished_amount := unfinished_amount (ns ! this) - 1\<rparr>]
        \<and> q' = q)
    \<and> (unfinished_amount (ns ! this) = 1 \<longrightarrow>
        ns' ! this = (ns ! this)\<lparr>unfinished_amount := 1,
            predecessor_amount := initial_predecessor_amount (ns ! this)\<rparr>
        \<and> (\<forall>m < length ns. m \<noteq> this \<longrightarrow>
              ns' ! m = (ns ! m)\<lparr>predecessor_amount :=
                predecessor_amount (ns ! m) - of_nat (count_list (successors (ns ! this)) m)\<rparr>)
        \<and> q' = push_all q (map (\<lambda>s. Some (RootJob s))
              (fired_successors (\<lambda>m. predecessor_amount (ns ! m)) (successors (ns ! this))))
        \<and> (distinct (successors (ns ! this)) \<longrightarrow>
              fired_successors (\<lambda>m. predecessor_amount (ns ! m)) (successors (ns ! this))
              = filter (\<lambda>s. predecessor_amount (ns ! s) = 1) (successors (ns ! this))))"
  using assms
proof (cases rule: job_completed_cases)
  case more
  then show ?thesis
    by (auto simp add: word_less_nat_alt)
next
  case (last ns2)
  let ?ns1 = "ns[this := (ns ! this)\<lparr>unfinished_amount := 0\<rparr>]"
  note f = fire_successors_spec [OF last(3)]
  have c: "(\<lambda>m. predecessor_amount (?ns1 ! m)) = (\<lambda>m. predecessor_amount (ns ! m))"
  proof
    fix m
    show "predecessor_amount (?ns1 ! m) = predecessor_amount (ns ! m)"
      using last(1) by (cases "m = this") simp_all
  qed
  have l: "length ns' = length ns"
    using f last(5) by simp
  have t: "ns' ! this = (ns ! this)\<lparr>unfinished_amount := 1,
      predecessor_amount := initial_predecessor_amount (ns ! this)\<rparr>"
    using f last(1,5) by simp
  have o: "ns' ! m = (ns ! m)\<lparr>predecessor_amount :=
      predecessor_amount (ns ! m) - of_nat (count_list (successors (ns ! this)) m)\<rparr>"
    if "m < length ns" and "m \<noteq> this" for m
    using f last(5) that by simp
  have q: "q' = push_all q (map (\<lambda>s. Some (RootJob s))
      (fired_successors (\<lambda>m. predecessor_amount (ns ! m)) (successors (ns ! this))))"
    using f c by simp
  show ?thesis
    using last(1,2) l t o q fired_successors_distinct by simp
qed

lemma Main_graph_two_completed:
  "job_completed 0 (nodes Main_graph_two) \<lparr>ring_buffer = (\<lambda>i. None), top' = 0, bottom = 0\<rparr> =
    Inr ([\<lparr>root_job = \<lparr>param_buffer = [], function' = parallel_generate, node = Some 0\<rparr>,
           initial_predecessor_amount = 0, predecessor_amount = 0, unfinished_amount = 1,
           successors = [1]\<rparr>,
          \<lparr>root_job = \<lparr>param_buffer = [], function' = parallel_sum, node = Some 1\<rparr>,
           initial_predecessor_amount = 1, predecessor_amount = 0, unfinished_amount = 1,
           successors = []\<rparr>],
         \<lparr>ring_buffer = (\<lambda>i. None)(0 := Some (RootJob 1)), top' = 0, bottom = 1\<rparr>)"
  by (simp add: job_completed_def Main_graph_two_def node_at_def Let_def
      JobQueue_push_def JobQueue_size_max_def queue_capacity_def ring_index_eq)

theorem job_completed_spec_witness:
  "job_completed 0 (nodes Main_graph_two) \<lparr>ring_buffer = (\<lambda>i. None), top' = 0, bottom = 0\<rparr> =
    Inr ([\<lparr>root_job = \<lparr>param_buffer = [], function' = parallel_generate, node = Some 0\<rparr>,
           initial_predecessor_amount = 0, predecessor_amount = 0, unfinished_amount = 1,
           successors = [1]\<rparr>,
          \<lparr>root_job = \<lparr>param_buffer = [], function' = parallel_sum, node = Some 1\<rparr>,
           initial_predecessor_amount = 1, predecessor_amount = 0, unfinished_amount = 1,
           successors = []\<rparr>],
         \<lparr>ring_buffer = (\<lambda>i. None)(0 := Some (RootJob 1)), top' = 0, bottom = 1\<rparr>)
   \<and> \<lparr>ring_buffer = (\<lambda>i. None)(0 := Some (RootJob 1)), top' = 0, bottom = 1\<rparr> =
      push_all \<lparr>ring_buffer = (\<lambda>i. None), top' = 0, bottom = 0\<rparr>
        (map (\<lambda>s. Some (RootJob s))
          (fired_successors (\<lambda>m. predecessor_amount (nodes Main_graph_two ! m))
            (successors (nodes Main_graph_two ! 0))))"
  using job_completed_spec [OF Main_graph_two_completed] Main_graph_two_completed
  by (simp add: Main_graph_two_def)

text \<open>
  Claim C4, as stated, fails for the first node of the benchmark graph when the deque of
  the caller is full: \<^verbatim>\<open>unfinished_amount\<close> is 1 and the \<^verbatim>\<open>predecessor_amount\<close> of the only
  successor is 1, but the root job of the successor is not pushed and the counters are
  not stored, since the call ends at the failed assertion \<^verbatim>\<open>assert(pushed)\<close>.
\<close>

theorem job_completed_counterexample:
  "job_completed 0 (nodes Main_graph_two) \<lparr>ring_buffer = (\<lambda>i. None), top' = 0, bottom = 4096\<rparr>
    = Inl AssertionFailed
   \<and> unfinished_amount (nodes Main_graph_two ! 0) = 1
   \<and> successors (nodes Main_graph_two ! 0) = [1]
   \<and> predecessor_amount (nodes Main_graph_two ! 1) = 1"
  by (simp add: job_completed_def Main_graph_two_def node_at_def Let_def
      JobQueue_push_def JobQueue_size_max_def queue_capacity_def)

subsection \<open>JobSpawner::spawn\<close>

lemma set_job_node_sub_job:
  assumes "set_job_node spn True job ns = Inr (job', ns')"
  shows "\<exists>n. spn = Some n \<and> n < length ns \<and> job' = job\<lparr>node := Some n\<rparr>
    \<and> ns' = ns[n := (ns ! n)\<lparr>unfinished_amount := unfinished_amount (ns ! n) + 1\<rparr>]"
  using assms
  by (auto simp add: set_job_node_def node_at_def job_added_def split: option.splits if_splits)

lemma set_job_node_detached:
  "set_job_node spn False job ns = Inr (job\<lparr>node := None\<rparr>, ns)"
  by (simp add: set_job_node_def)

lemma set_job_node_null:
  "set_job_node None True job ns = Inl NullDereference"
  by (simp add: set_job_node_def)

lemma spawn_impl_returns:
  assumes "spawn_impl sp m f params is_sub_job = Inr (sp', m')"
  shows "\<exists>c i job' ns'.
      JobAllocator_allocate (allocator sp) (chunk_allocator m)
        = Inr (Some (ChunkJob c i), allocator sp', chunk_allocator m')
    \<and> set_job_node (node' sp) is_sub_job
        ((chunk_jobs m c i)\<lparr>param_buffer := memcpy (param_buffer (chunk_jobs m c i)) params,
                            function' := f\<rparr>) (graph_nodes m) = Inr (job', ns')
    \<and> chunk_jobs m' c i = job' \<and> graph_nodes m' = ns'
    \<and> JobQueue_push (queue sp) (Some (ChunkJob c i)) = Inr (True, queue sp')"
  using assms
  by (auto simp add: spawn_impl_def Let_def
      split: sum.splits option.splits job_ref.splits prod.splits if_splits)

lemma spawn_impl_by_design:
  assumes "spawn_impl sp m f params is_sub_job = Inr (sp', m')"
  shows "\<exists>c i. JobAllocator_allocate (allocator sp) (chunk_allocator m)
        = Inr (Some (ChunkJob c i), allocator sp', chunk_allocator m')
    \<and> function' (chunk_jobs m' c i) = f
    \<and> (if is_sub_job then
         (\<exists>n. node' sp = Some n \<and> n < length (graph_nodes m)
            \<and> node (chunk_jobs m' c i) = Some n
            \<and> graph_nodes m' = (graph_nodes m)[n := (graph_nodes m ! n)
                \<lparr>unfinished_amount := unfinished_amount (graph_nodes m ! n) + 1\<rparr>])
       else node (chunk_jobs m' c i) = None \<and> graph_nodes m' = graph_nodes m)"
proof -
  obtain c i job' ns' where a: "JobAllocator_allocate (allocator sp) (chunk_allocator m)
        = Inr (Some (ChunkJob c i), allocator sp', chunk_allocator m')"
    and s: "set_job_node (node' sp) is_sub_job
        ((chunk_jobs m c i)\<lparr>param_buffer := memcpy (param_buffer (chunk_jobs m c i)) params,
                            function' := f\<rparr>) (graph_nodes m) = Inr (job', ns')"
    and r: "chunk_jobs m' c i = job'" "graph_nodes m' = ns'"
    using spawn_impl_returns [OF assms] by blast
  have "function' job' = f"
    using s by (auto simp add: set_job_node_def split: if_splits option.splits)
  then have fn: "function' (chunk_jobs m' c i) = f"
    using r(1) by simp
  have "if is_sub_job then
         (\<exists>n. node' sp = Some n \<and> n < length (graph_nodes m)
            \<and> node (chunk_jobs m' c i) = Some n
            \<and> graph_nodes m' = (graph_nodes m)[n := (graph_nodes m ! n)
                \<lparr>unfinished_amount := unfinished_amount (graph_nodes m ! n) + 1\<rparr>])
       else node (chunk_jobs m' c i) = None \<and> graph_nodes m' = graph_nodes m"
  proof (cases is_sub_job)
    case True
    then have s': "set_job_node (node' sp) True
        ((chunk_jobs m c i)\<lparr>param_buffer := memcpy (param_buffer (chunk_jobs m c i)) params,
                            function' := f\<rparr>) (graph_nodes m) = Inr (job', ns')"
      using s by simp
    obtain n where "node' sp = Some n" and "n < length (graph_nodes m)"
      and "job' = (chunk_jobs m c i)\<lparr>param_buffer := memcpy (param_buffer (chunk_jobs m c i)) params,
                            function' := f\<rparr>\<lparr>node := Some n\<rparr>"
      and "ns' = (graph_nodes m)[n := (graph_nodes m ! n)
                \<lparr>unfinished_amount := unfinished_amount (graph_nodes m ! n) + 1\<rparr>]"
      using set_job_node_sub_job [OF s'] by auto
    then show ?thesis
      using True r by simp
  next
    case False
    then have "job' = (chunk_jobs m c i)\<lparr>param_buffer := memcpy (param_buffer (chunk_jobs m c i)) params,
                            function' := f\<rparr>\<lparr>node := None\<rparr>" and "ns' = graph_nodes m"
      using s by (simp_all add: set_job_node_detached)
    then show ?thesis
      using False r by simp
  qed
  then show ?thesis
    using a fn by blast
qed

text \<open>
  Claim C1 distinguishes three cases of \<^verbatim>\<open>JobSpawner::spawn\<close>. Two of them hold of every
  call that returns (\<open>spawn_impl_by_design\<close>): with \<^verbatim>\<open>is_sub_job\<close> and a bound node, the
  back-pointer of the new job is that node and its \<^verbatim>\<open>unfinished_amount\<close> is incremented by
  one; without \<^verbatim>\<open>is_sub_job\<close>, the back-pointer is null and no node changes. In the third
  case, \<^verbatim>\<open>is_sub_job\<close> with a spawner bound to the null pointer, which \<^verbatim>\<open>Job::run\<close> binds
  for every job without a node, the claim has the back-pointer null and no counter
  changed. \<^verbatim>\<open>spawn_impl\<close> does not test the pointer as \<^verbatim>\<open>Job::run\<close> does before
  \<^verbatim>\<open>job_completed\<close>: it calls \<^verbatim>\<open>node->job_added()\<close> on the null pointer, and the call does
  not return. The theorem evaluates such a call: a job outside the graph, run by the
  first worker on its fresh allocator and empty deque, spawns a sub-job.
\<close>

theorem spawn_impl_null_node:
  "spawn_impl
      \<lparr>allocator = \<lparr>chunk = None, next_index' = 0\<rparr>,
       queue = \<lparr>ring_buffer = (\<lambda>i. None), top' = 0, bottom = 0\<rparr>,
       node' = None\<rparr>
      \<lparr>chunk_allocator = JobChunkAllocator_new 32,
       chunk_jobs = (\<lambda>c i. \<lparr>param_buffer = [], function' = 0, node = None\<rparr>),
       graph_nodes = nodes Main_graph\<rparr>
      parallel_generate [] True
    = Inl NullDereference"
  by (simp add: spawn_impl_def JobAllocator_allocate_def JobChunkAllocator_allocate_def
      JobChunkAllocator_new_def JobChunkAllocator_size_max_def take_slot_def Let_def
      set_job_node_null allocation_chunk_size_def)

lemma spawn_impl_example_detached:
  "\<exists>sp' m'. spawn_impl
      \<lparr>allocator = \<lparr>chunk = None, next_index' = 0\<rparr>,
       queue = \<lparr>ring_buffer = (\<lambda>i. None), top' = 0, bottom = 0\<rparr>,
       node' = None\<rparr>
      \<lparr>chunk_allocator = JobChunkAllocator_new 32,
       chunk_jobs = (\<lambda>c i. \<lparr>param_buffer = [], function' = 0, node = None\<rparr>),
       graph_nodes = nodes Main_graph\<rparr>
      parallel_generate [] False
    = Inr (sp', m') \<and> node (chunk_jobs m' 0 0) = None \<and> graph_nodes m' = nodes Main_graph"
  by (simp add: spawn_impl_def JobAllocator_allocate_def JobChunkAllocator_allocate_def
      JobChunkAllocator_new_def JobChunkAllocator_size_max_def take_slot_def Let_def
      set_job_node_detached allocation_chunk_size_def
      JobQueue_push_def JobQueue_size_max_def queue_capacity_def)

lemma run_completion_null:
  "node job = None \<Longrightarrow> run_completion job ns q = Inr (ns, q)"
  by (simp add: run_completion_def)

subsection \<open>The victim of a steal\<close>

lemma nat_mod_window:
  fixes i d W :: nat
  assumes "i < W" and "i + 1 \<le> d" and "d \<le> i + W - 1"
  shows "d mod W \<noteq> i"
proof
  assume e: "d mod W = i"
  have "(d - i) mod W = 0"
    using assms e by (metis add_leD1 mod_less mod_eq_dvd_iff_nat dvd_imp_mod_0)
  moreover have "0 < d - i" and "d - i < W"
    using assms by auto
  ultimately show False
    by simp
qed

lemma target_index_other:
  assumes "index < n" and "1 < n"
    and "steal_distribution index n d"
  shows "target_index d n \<noteq> index"
proof -
  let ?i = "unat index" and ?W = "unat n" and ?d = "unat d"
  have iW: "?i < ?W" using assms(1) by (simp add: word_less_nat_alt)
  have W1: "1 < ?W" using assms(2) by (simp add: word_less_nat_alt)
  have Wb: "?W < 2 ^ 32" using unsigned_less [of n, where ?'a = nat] by simp
  have lo: "unat (steal_distribution_a index) = ?i + 1"
    using iW Wb by (simp add: steal_distribution_a_def unat_word_ariths)
  have um: "unat (n - 1) = ?W - 1"
    using W1 by (simp add: unat_sub word_le_nat_alt)
  have "1 \<le> n - 1"
    using W1 um by (simp add: word_le_nat_alt)
  then have m: "max (n - 1) 1 = n - 1"
    by (auto simp add: max_def)
  have hi: "unat (steal_distribution_b index n) = (?W - 1 + ?i) mod 2 ^ 32"
    by (simp add: steal_distribution_b_def m unat_word_ariths um)
  have d1: "?i + 1 \<le> ?d"
    using assms(3) lo by (simp add: steal_distribution_def word_le_nat_alt)
  have d2: "?d \<le> (?W - 1 + ?i) mod 2 ^ 32"
    using assms(3) hi by (simp add: steal_distribution_def word_le_nat_alt)
  have nowrap: "?W - 1 + ?i < 2 ^ 32"
  proof (rule ccontr)
    assume "\<not> ?W - 1 + ?i < 2 ^ 32"
    then have ge: "2 ^ 32 \<le> ?W - 1 + ?i" by simp
    have "?W - 1 + ?i < 2 * 2 ^ 32" using iW Wb by simp
    then have "(?W - 1 + ?i) mod 2 ^ 32 = ?W - 1 + ?i - 2 ^ 32"
      using ge by (simp add: mod_if)
    then have "(?W - 1 + ?i) mod 2 ^ 32 < ?i"
      using Wb ge by simp
    with d1 d2 show False by simp
  qed
  then have d3: "?d \<le> ?i + ?W - 1"
    using d2 W1 by simp
  have "?d mod ?W \<noteq> ?i"
    by (rule nat_mod_window [OF iW d1 d3])
  then show ?thesis
    by (auto simp add: target_index_def unat_mod dest: arg_cong [where f = unat])
qed

text \<open>
  Claim C10. Let \<open>i\<close> be the index of a worker of a scheduler with \<open>W\<close> workers, so
  \<open>i < W\<close>, and \<open>d\<close> a draw from the distribution of the worker, whose range is from
  \<open>i + 1\<close> to \<open>i + max (W - 1) 1\<close> in \<^verbatim>\<open>uint32_t\<close> arithmetic. The victim \<open>d mod W\<close> is not
  \<open>i\<close> when \<open>W > 1\<close>, and it is 0, the worker itself, when \<open>W = 1\<close>.
\<close>

theorem target_index_spec:
  assumes "index < Scheduler_worker_amount desired"
    and "steal_distribution index (Scheduler_worker_amount desired) d"
  shows "(1 < Scheduler_worker_amount desired \<longrightarrow>
        target_index d (Scheduler_worker_amount desired) \<noteq> index)
    \<and> (Scheduler_worker_amount desired = 1 \<longrightarrow>
        target_index d (Scheduler_worker_amount desired) = 0 \<and> index = 0)"
proof (intro conjI impI)
  assume "1 < Scheduler_worker_amount desired"
  then show "target_index d (Scheduler_worker_amount desired) \<noteq> index"
    using assms by (intro target_index_other)
next
  assume one: "Scheduler_worker_amount desired = 1"
  then show "target_index d (Scheduler_worker_amount desired) = 0"
    by (simp add: target_index_def)
  show "index = 0"
    using assms(1) one by simp
qed

theorem target_index_spec_witness:
  "target_index 5 (Scheduler_worker_amount 4) \<noteq> 2
   \<and> target_index 1 (Scheduler_worker_amount 0) = 0
   \<and> steal_distribution 2 (Scheduler_worker_amount 4) 5
   \<and> steal_distribution 0 (Scheduler_worker_amount 0) 1"
proof -
  have w4: "Scheduler_worker_amount 4 = 4" and w1: "Scheduler_worker_amount 0 = 1"
    by (simp_all add: Scheduler_worker_amount_def)
  have s4: "steal_distribution 2 (Scheduler_worker_amount 4) 5"
    and s1: "steal_distribution 0 (Scheduler_worker_amount 0) 1"
    by (simp_all add: w4 w1 steal_distribution_def steal_distribution_a_def steal_distribution_b_def)
  have "2 < Scheduler_worker_amount 4" and "0 < Scheduler_worker_amount 0"
    by (simp_all add: w4 w1)
  then show ?thesis
    using target_index_spec [of 2 4 5] target_index_spec [of 0 0 1] s4 s1
    by (simp add: w4 w1)
qed

subsection \<open>Termination detection in the work loop\<close>

lemma work_loop_step_at:
  assumes "work_loop_step s w found = Some (e, s1)"
  shows "at s1 w = after (worker_amount s) e"
    and "worker_amount s1 = worker_amount s"
    and "u \<noteq> w \<Longrightarrow> at s1 u = at s u"
    and "w < unat (worker_amount s)"
  using assms
  by (auto simp add: work_loop_step_def split: if_splits option.splits)

lemma work_loop_step_source:
  assumes "work_loop_step s w found = Some (e, s1)"
  shows "e = StoreStealer v \<Longrightarrow> at s w = Publish \<and> v = worker_amount s + 1"
    and "e = LoadStealer v \<Longrightarrow> at s w = Woken \<and> v = stealer_amount s"
    and "e = FetchSubActive v \<Longrightarrow> at s w = Park \<and> v = active_amount s"
  using assms
  by (auto simp add: work_loop_step_def work_loop_event_def Let_def
      split: if_splits option.splits control.splits)

lemma work_loop_run_Cons:
  assumes "work_loop_run s schedule = Some ((w, e) # es, s2)"
  obtains found rest s1 where "schedule = (w, found) # rest"
    and "work_loop_step s w found = Some (e, s1)"
    and "work_loop_run s1 rest = Some (es, s2)"
proof (cases schedule)
  case Nil
  then show ?thesis using assms by simp
next
  case (Cons a rest)
  obtain u found where a: "a = (u, found)" by (cases a)
  show ?thesis
    using assms Cons a that
    by (auto split: option.splits)
qed

lemma work_loop_run_invariant:
  assumes "work_loop_run s schedule = Some (es, s2)"
  shows "worker_amount s2 = worker_amount s
    \<and> at s2 w = (case last_event w es of None \<Rightarrow> at s w | Some e \<Rightarrow> after (worker_amount s) e)"
  using assms
proof (induction es arbitrary: s schedule)
  case Nil
  then have "s2 = s"
    by (cases schedule) (auto split: option.splits)
  then show ?case by simp
next
  case (Cons x es)
  obtain u e where x: "x = (u, e)" by (cases x)
  from Cons.prems obtain found rest s1 where st: "work_loop_step s u found = Some (e, s1)"
    and r: "work_loop_run s1 rest = Some (es, s2)"
    unfolding x by (rule work_loop_run_Cons)
  note ih = Cons.IH [OF r]
  note a = work_loop_step_at [OF st]
  show ?case
  proof (cases "last_event w es")
    case None
    then show ?thesis
      using ih a x by (cases "u = w") simp_all
  next
    case (Some e')
    then show ?thesis
      using ih a(2) x by simp
  qed
qed

lemma work_loop_run_split:
  assumes "work_loop_run s schedule = Some (xs @ (w, e) # ys, s2)"
  shows "\<exists>schedule1 s1 found s1'.
      work_loop_run s schedule1 = Some (xs, s1)
    \<and> work_loop_step s1 w found = Some (e, s1')"
  using assms
proof (induction xs arbitrary: s schedule)
  case Nil
  then obtain found rest s1 where "work_loop_step s w found = Some (e, s1)"
    by (auto elim: work_loop_run_Cons)
  then have "work_loop_run s [] = Some ([], s) \<and> work_loop_step s w found = Some (e, s1)"
    by simp
  then show ?case by blast
next
  case (Cons x xs)
  obtain u e0 where x: "x = (u, e0)" by (cases x)
  from Cons.prems obtain found rest s0 where st: "work_loop_step s u found = Some (e0, s0)"
    and r: "work_loop_run s0 rest = Some (xs @ (w, e) # ys, s2)"
    unfolding x append_Cons by (rule work_loop_run_Cons)
  obtain schedule1 s1 found1 s1' where p: "work_loop_run s0 schedule1 = Some (xs, s1)"
    and q: "work_loop_step s1 w found1 = Some (e, s1')"
    using Cons.IH [OF r] by blast
  have "work_loop_run s ((u, found) # schedule1) = Some (x # xs, s1)"
    using st p x by simp
  then show ?case
    using q by blast
qed

lemma after_Publish: "after n e = Publish \<Longrightarrow> e = FetchSubActive 1"
  by (cases e) (auto split: if_splits)

lemma after_Returned: "after n e = Returned \<Longrightarrow> \<exists>v. e = LoadStealer v \<and> n < v"
  by (cases e) (auto split: if_splits)

lemma last_event_worker:
  assumes "work_loop_run s schedule = Some (es, s2)" and "last_event w es = Some e"
  shows "w < unat (worker_amount s)"
  using assms
proof (induction es arbitrary: s schedule e)
  case Nil
  then show ?case by simp
next
  case (Cons x es)
  obtain u e0 where x: "x = (u, e0)" by (cases x)
  from Cons.prems(1) obtain found rest s1 where st: "work_loop_step s u found = Some (e0, s1)"
    and r: "work_loop_run s1 rest = Some (es, s2)"
    unfolding x by (rule work_loop_run_Cons)
  note a = work_loop_step_at [OF st]
  show ?case
  proof (cases "last_event w es")
    case None
    then have "u = w"
      using Cons.prems(2) x by (auto split: if_splits)
    then show ?thesis using a(4) by simp
  next
    case (Some e')
    then show ?thesis
      using Cons.IH [OF r] a(2) by simp
  qed
qed

text \<open>
  Claim C6. Take an execution of the work loop from the start of a run, with its trace,
  and a worker \<open>w\<close>.
  \<^item> If \<open>w\<close> has returned from \<^verbatim>\<open>work_loop\<close>, its last event is a load of
    \<^verbatim>\<open>stealer_amount\<close> that read a value greater than the number of workers; what such a
    load reads is the content of \<^verbatim>\<open>stealer_amount\<close> at that point of the execution.
  \<^item> Every store into \<^verbatim>\<open>stealer_amount\<close> by \<open>w\<close> stores the number of workers plus one, and
    the event of \<open>w\<close> before it is a \<^verbatim>\<open>fetch_sub\<close> on \<^verbatim>\<open>active_amount\<close> that read 1, the
    content of \<^verbatim>\<open>active_amount\<close> at that point.
  \<^item> If the last event of \<open>w\<close> is a load, after its wait, of a value that does not
    exceed the number of workers, then \<open>w\<close> has not returned: its next three steps
    increment \<^verbatim>\<open>active_amount\<close> by one, yield, and try the next steal.
\<close>

theorem work_loop_termination_spec:
  assumes "work_loop_run (run_start n) schedule = Some (trace, s)"
  shows "(at s w = Returned \<longrightarrow> (\<exists>v. last_event w trace = Some (LoadStealer v) \<and> n < v))
    \<and> (\<forall>xs ys v. trace = xs @ (w, LoadStealer v) # ys \<longrightarrow>
          (\<exists>schedule1 s1. work_loop_run (run_start n) schedule1 = Some (xs, s1)
              \<and> at s1 w = Woken \<and> stealer_amount s1 = v))
    \<and> (\<forall>xs ys v. trace = xs @ (w, StoreStealer v) # ys \<longrightarrow>
          v = n + 1 \<and> last_event w xs = Some (FetchSubActive 1))
    \<and> (\<forall>xs ys v. trace = xs @ (w, FetchSubActive v) # ys \<longrightarrow>
          (\<exists>schedule1 s1. work_loop_run (run_start n) schedule1 = Some (xs, s1)
              \<and> at s1 w = Park \<and> active_amount s1 = v))
    \<and> (\<forall>v. last_event w trace = Some (LoadStealer v) \<longrightarrow> v \<le> n \<longrightarrow>
          at s w = Resume
          \<and> work_loop_run s [(w, f1), (w, f2), (w, found)] =
              Some ([(w, FetchAddActive (active_amount s)), (w, YieldThread),
                     (w, if found then StealJob else StealNull)],
                    s\<lparr>active_amount := active_amount s + 1,
                      at := (at s)(w := if found then Leave else Check)\<rparr>))"
proof (intro conjI allI impI)
  note inv = work_loop_run_invariant [OF assms, of w]
  have n: "worker_amount s = n"
    using inv by (simp add: run_start_def)
  have a: "at s w = (case last_event w trace of None \<Rightarrow> Own | Some e \<Rightarrow> after n e)"
    using inv by (simp add: run_start_def split: option.splits)
  {
    assume r: "at s w = Returned"
    then obtain e where e: "last_event w trace = Some e" and "after n e = Returned"
      using a by (cases "last_event w trace") simp_all
    then show "\<exists>v. last_event w trace = Some (LoadStealer v) \<and> n < v"
      using after_Returned by blast
  }
  {
    fix xs ys v
    assume t: "trace = xs @ (w, LoadStealer v) # ys"
    obtain schedule1 s1 found s1' where p: "work_loop_run (run_start n) schedule1 = Some (xs, s1)"
      and q: "work_loop_step s1 w found = Some (LoadStealer v, s1')"
      using work_loop_run_split assms t by blast
    have "at s1 w = Woken \<and> v = stealer_amount s1"
      using work_loop_step_source(2) [OF q] by simp
    then show "\<exists>schedule1 s1. work_loop_run (run_start n) schedule1 = Some (xs, s1)
        \<and> at s1 w = Woken \<and> stealer_amount s1 = v"
      using p by blast
  }
  {
    fix xs ys v
    assume t: "trace = xs @ (w, FetchSubActive v) # ys"
    obtain schedule1 s1 found s1' where p: "work_loop_run (run_start n) schedule1 = Some (xs, s1)"
      and q: "work_loop_step s1 w found = Some (FetchSubActive v, s1')"
      using work_loop_run_split assms t by blast
    have "at s1 w = Park \<and> v = active_amount s1"
      using work_loop_step_source(3) [OF q] by simp
    then show "\<exists>schedule1 s1. work_loop_run (run_start n) schedule1 = Some (xs, s1)
        \<and> at s1 w = Park \<and> active_amount s1 = v"
      using p by blast
  }
  {
    fix xs ys v
    assume t: "trace = xs @ (w, StoreStealer v) # ys"
    obtain schedule1 s1 found s1' where p: "work_loop_run (run_start n) schedule1 = Some (xs, s1)"
      and q: "work_loop_step s1 w found = Some (StoreStealer v, s1')"
      using work_loop_run_split assms t by blast
    have src: "at s1 w = Publish \<and> v = worker_amount s1 + 1"
      using work_loop_step_source(1) [OF q] by simp
    note inv1 = work_loop_run_invariant [OF p, of w]
    show "v = n + 1"
      using src inv1 by (simp add: run_start_def)
    have "(case last_event w xs of None \<Rightarrow> Own | Some e \<Rightarrow> after n e) = Publish"
      using src inv1 by (simp add: run_start_def split: option.splits)
    then obtain e where e: "last_event w xs = Some e" and "after n e = Publish"
      by (cases "last_event w xs") simp_all
    then show "last_event w xs = Some (FetchSubActive 1)"
      using after_Publish by blast
  }
  {
    fix v
    assume l: "last_event w trace = Some (LoadStealer v)" and v: "v \<le> n"
    show r: "at s w = Resume"
      using a l v by (simp add: not_less)
    have w: "w < unat (worker_amount s)"
      using last_event_worker [OF assms l] n by (simp add: run_start_def)
    show "work_loop_run s [(w, f1), (w, f2), (w, found)] =
        Some ([(w, FetchAddActive (active_amount s)), (w, YieldThread),
               (w, if found then StealJob else StealNull)],
              s\<lparr>active_amount := active_amount s + 1,
                at := (at s)(w := if found then Leave else Check)\<rparr>)"
      using r w by (simp add: work_loop_step_def work_loop_event_def Let_def)
  }
qed

lemmas work_loop_eval =
  run_start_def work_loop_step_def work_loop_event_def Let_def

lemma single_worker_run:
  "work_loop_run (run_start 1)
      [(0, False), (0, False), (0, False), (0, False), (0, False), (0, False), (0, False), (0, False)]
    = Some ([(0, PopNull), (0, FetchAddStealer 0), (0, StealNull), (0, LoadStealerRelaxed 1),
             (0, FetchSubActive 1), (0, StoreStealer 2), (0, WaitStealer), (0, LoadStealer 2)],
            \<lparr>worker_amount = 1, stealer_amount = 2, active_amount = 0,
             at = (\<lambda>w. Own)(0 := Returned)\<rparr>)"
  by (simp add: work_loop_eval)

lemma false_wait_run:
  "\<exists>s. work_loop_run (run_start 2)
      [(0, False), (1, False), (0, False), (1, False), (0, False), (0, False), (0, False),
       (1, True), (1, False), (0, False), (0, False)]
    = Some ([(0, PopNull), (1, PopNull), (0, FetchAddStealer 0), (1, FetchAddStealer 1),
             (0, StealNull), (0, LoadStealerRelaxed 2), (0, FetchSubActive 2), (1, StealJob),
             (1, FetchSubStealer 2), (0, WaitStealer), (0, LoadStealer 1)], s)
    \<and> active_amount s = 1"
  by (simp add: work_loop_eval)

theorem work_loop_termination_spec_witness:
  "work_loop_run (run_start 1)
      [(0, False), (0, False), (0, False), (0, False), (0, False), (0, False), (0, False), (0, False)]
    = Some ([(0, PopNull), (0, FetchAddStealer 0), (0, StealNull), (0, LoadStealerRelaxed 1),
             (0, FetchSubActive 1), (0, StoreStealer 2), (0, WaitStealer), (0, LoadStealer 2)],
            \<lparr>worker_amount = 1, stealer_amount = 2, active_amount = 0,
             at = (\<lambda>w. Own)(0 := Returned)\<rparr>)
   \<and> (\<exists>v. last_event 0 [(0, PopNull), (0, FetchAddStealer 0), (0, StealNull),
          (0, LoadStealerRelaxed 1), (0, FetchSubActive 1), (0, StoreStealer 2), (0, WaitStealer),
          (0, LoadStealer 2)] = Some (LoadStealer v) \<and> 1 < v)
   \<and> last_event 0 [(0, PopNull), (0, FetchAddStealer 0), (0, StealNull),
          (0, LoadStealerRelaxed 1), (0, FetchSubActive 1)] = Some (FetchSubActive 1)
   \<and> (\<exists>s. work_loop_run (run_start 2)
          [(0, False), (1, False), (0, False), (1, False), (0, False), (0, False), (0, False),
           (1, True), (1, False), (0, False), (0, False)]
        = Some ([(0, PopNull), (1, PopNull), (0, FetchAddStealer 0), (1, FetchAddStealer 1),
             (0, StealNull), (0, LoadStealerRelaxed 2), (0, FetchSubActive 2), (1, StealJob),
             (1, FetchSubStealer 2), (0, WaitStealer), (0, LoadStealer 1)], s)
      \<and> at s 0 = Resume
      \<and> work_loop_run s [(0, False), (0, False), (0, False)] =
          Some ([(0, FetchAddActive 1), (0, YieldThread), (0, StealNull)],
                s\<lparr>active_amount := 2, at := (at s)(0 := Check)\<rparr>))"
proof -
  let ?t1 = "[(0, PopNull), (0, FetchAddStealer 0), (0, StealNull),
          (0, LoadStealerRelaxed 1), (0, FetchSubActive 1), (0::nat, StoreStealer 2), (0, WaitStealer),
          (0, LoadStealer 2)]"
  have t1: "?t1 = [(0, PopNull), (0, FetchAddStealer 0), (0, StealNull),
          (0, LoadStealerRelaxed 1), (0, FetchSubActive 1)] @ (0, StoreStealer 2) # [(0, WaitStealer),
          (0, LoadStealer 2)]"
    by simp
  note one = work_loop_termination_spec [OF single_worker_run, of 0]
  have a: "\<exists>v. last_event 0 ?t1 = Some (LoadStealer v) \<and> 1 < v"
    using one by simp
  have b: "last_event 0 [(0, PopNull), (0, FetchAddStealer 0), (0, StealNull),
          (0, LoadStealerRelaxed 1), (0, FetchSubActive 1)] = Some (FetchSubActive 1)"
    using one t1 by blast
  obtain s where r: "work_loop_run (run_start 2)
          [(0, False), (1, False), (0, False), (1, False), (0, False), (0, False), (0, False),
           (1, True), (1, False), (0, False), (0, False)]
        = Some ([(0, PopNull), (1, PopNull), (0, FetchAddStealer 0), (1, FetchAddStealer 1),
             (0, StealNull), (0, LoadStealerRelaxed 2), (0, FetchSubActive 2), (1, StealJob),
             (1, FetchSubStealer 2), (0, WaitStealer), (0, LoadStealer 1)], s)"
    and ac: "active_amount s = 1"
    using false_wait_run by blast
  have "at s 0 = Resume
      \<and> work_loop_run s [(0, False), (0, False), (0, False)] =
          Some ([(0, FetchAddActive (active_amount s)), (0, YieldThread), (0, StealNull)],
                s\<lparr>active_amount := active_amount s + 1, at := (at s)(0 := Check)\<rparr>)"
    using work_loop_termination_spec [OF r, of 0 False False False] by simp
  then have c: "at s 0 = Resume
      \<and> work_loop_run s [(0, False), (0, False), (0, False)] =
          Some ([(0, FetchAddActive 1), (0, YieldThread), (0, StealNull)],
                s\<lparr>active_amount := 2, at := (at s)(0 := Check)\<rparr>)"
    by (simp add: ac)
  show ?thesis
    using single_worker_run a b c r by auto
qed

end
